theory Spec2Isabelle
  imports Complex_Main "HOL-Library.Log_Nat"
begin

section \<open>Data model\<close>

text \<open>
  Epochs and velocity deltas are Python floats, that is IEEE 754 doubles, embedded as
  real numbers. The policy only stores and compares floats, which is exact, and there a
  decimal literal stands for itself. The loop adds the step to the clock, and that
  addition rounds (\<open>float_add\<close> below); where the rounding matters a decimal literal is
  read with \<open>to_float\<close>. Infinities and NaN are outside the model, and
  \<open>pk.epoch(x, "mjd2000").mjd2000\<close> is taken to be \<open>x\<close>.
\<close>

text \<open>The \<open>coord\<close> entry of the state dictionary: \<open>st\<close> and \<open>debr\<close> arrays.\<close>

record coord =
  st :: "real list"
  debr :: "real list list"

text \<open>The state dictionary handed to an agent (docstring of \<open>get_action\<close>).\<close>

record state =
  coord :: coord
  trajectory_deviation_coef :: real
  epoch :: real
  fuel :: real

text \<open>
  An action is the array \<open>[dVx, dVy, dVz, epoch, time_to_req]\<close>; the record keeps the
  five positions by name.
\<close>

record action =
  dVx :: real
  dVy :: real
  dVz :: real
  maneuver_epoch :: real
  time_to_req :: real

text \<open>
  One row of the action table as \<open>pd.read_csv(table_path, index_col=0).values\<close> yields
  it for the persisted format: column 0 is the epoch, columns 1 to 3 are the deltas.
\<close>

record row =
  row_epoch :: real
  row_dVx :: real
  row_dVy :: real
  row_dVz :: real

text \<open>The agent object: its only attribute is the table, a sequence of rows.\<close>

record TableAgent =
  table :: "row list"

text \<open>What \<open>TableAgent.get_action\<close> prints to standard output.\<close>

datatype out_line = Print_epoch real | Print_maneuver action

section \<open>The agents (agent.py)\<close>

text \<open>
  \<open>TableAgent.get_action\<close>. The state dictionary and the agent are passed by reference
  in the source, so the model returns both as the call leaves them, next to the action
  and the printed lines. \<open>self.table.size\<close> is non-zero exactly when the table of
  four-column rows has a row; \<open>np.delete(self.table, 0, axis=0)\<close> drops row 0.
\<close>

definition get_action :: "state \<Rightarrow> TableAgent \<Rightarrow> action \<times> state \<times> TableAgent \<times> out_line list" where
  "get_action s ag =
     (let e = epoch s;
          default_action = \<lparr>dVx = 0, dVy = 0, dVz = 0, maneuver_epoch = e, time_to_req = 0\<rparr>
      in case table ag of
           [] \<Rightarrow> (default_action, s, ag, [Print_epoch e])
         | r # rs \<Rightarrow>
             if e \<ge> row_epoch r then
               (let a = \<lparr>dVx = row_dVx r, dVy = row_dVy r, dVz = row_dVz r,
                         maneuver_epoch = e, time_to_req = 0\<rparr>
                in (a, s, ag\<lparr>table := rs\<rparr>, [Print_epoch e, Print_maneuver a]))
             else (default_action, s, ag, [Print_epoch e]))"

text \<open>\<open>Agent.get_action\<close>: zero deltas, the state's epoch, and the constant \<open>0.001\<close>.\<close>

definition Agent_get_action :: "state \<Rightarrow> action \<times> state" where
  "Agent_get_action s =
     (\<lparr>dVx = 0, dVy = 0, dVz = 0, maneuver_epoch = epoch s, time_to_req = 1 / 1000\<rparr>, s)"

text \<open>The no-op action of the specification, tagged with an epoch.\<close>

definition noop :: "real \<Rightarrow> action" where
  "noop e = \<lparr>dVx = 0, dVy = 0, dVz = 0, maneuver_epoch = e, time_to_req = 0\<rparr>"

text \<open>Projections of the result of \<open>get_action\<close>.\<close>

definition act_of :: "action \<times> state \<times> TableAgent \<times> out_line list \<Rightarrow> action" where
  "act_of x = fst x"

definition state_of :: "action \<times> state \<times> TableAgent \<times> out_line list \<Rightarrow> state" where
  "state_of x = fst (snd x)"

definition agent_of :: "action \<times> state \<times> TableAgent \<times> out_line list \<Rightarrow> TableAgent" where
  "agent_of x = fst (snd (snd x))"

text \<open>A state snapshot at a given epoch, for the concrete examples.\<close>

definition state_at :: "real \<Rightarrow> state" where
  "state_at e = \<lparr>coord = \<lparr>st = [], debr = []\<rparr>, trajectory_deviation_coef = 0,
                 epoch = e, fuel = 0\<rparr>"

subsection \<open>A sequence of polls\<close>

text \<open>
  A call has fired when it left the table shorter than it found it. The returned action
  alone does not tell: a row whose three deltas are zero fires an action that is equal,
  as a value, to the no-op.
\<close>

definition fired :: "TableAgent \<Rightarrow> TableAgent \<Rightarrow> bool" where
  "fired ag ag' = (length (table ag') < length (table ag))"

text \<open>
  \<open>calls ss ag\<close> polls the same agent object once for each state of \<open>ss\<close>, in order, and
  records for each call the state, the action returned and whether the call fired.
\<close>

fun calls :: "state list \<Rightarrow> TableAgent \<Rightarrow> (state \<times> action \<times> bool) list" where
  "calls [] ag = []"
| "calls (s # ss) ag =
     (let res = get_action s ag
      in (s, act_of res, fired ag (agent_of res)) # calls ss (agent_of res))"

text \<open>The agent object as the whole sequence of polls leaves it.\<close>

fun agent_after :: "state list \<Rightarrow> TableAgent \<Rightarrow> TableAgent" where
  "agent_after [] ag = ag"
| "agent_after (s # ss) ag = agent_after ss (agent_of (get_action s ag))"

definition n_fired :: "(state \<times> action \<times> bool) list \<Rightarrow> nat" where
  "n_fired cs = length (filter (\<lambda>c. snd (snd c)) cs)"

definition fired_actions :: "(state \<times> action \<times> bool) list \<Rightarrow> action list" where
  "fired_actions cs = map (\<lambda>c. fst (snd c)) (filter (\<lambda>c. snd (snd c)) cs)"

definition deltas :: "action \<Rightarrow> real \<times> real \<times> real" where
  "deltas a = (dVx a, dVy a, dVz a)"

definition row_deltas :: "row \<Rightarrow> real \<times> real \<times> real" where
  "row_deltas r = (row_dVx r, row_dVy r, row_dVz r)"

text \<open>The state's epoch has reached the epoch of every row of the table.\<close>

definition due_everywhere :: "TableAgent \<Rightarrow> state \<Rightarrow> bool" where
  "due_everywhere ag s = (\<forall>r \<in> set (table ag). row_epoch r \<le> epoch s)"

text \<open>The tables of the examples.\<close>

definition example_row :: row where
  "example_row = \<lparr>row_epoch = 6600.0, row_dVx = 1.0, row_dVy = 0.0, row_dVz = 0.0\<rparr>"

definition example_table :: TableAgent where
  "example_table = \<lparr>table = [example_row]\<rparr>"

definition two_rows :: TableAgent where
  "two_rows = \<lparr>table = [\<lparr>row_epoch = 1, row_dVx = 1, row_dVy = 0, row_dVz = 0\<rparr>,
                         \<lparr>row_epoch = 2, row_dVx = 2, row_dVy = 0, row_dVz = 0\<rparr>]\<rparr>"

text \<open>A table whose first row has three zero deltas.\<close>

definition zero_first :: TableAgent where
  "zero_first = \<lparr>table = [\<lparr>row_epoch = 1, row_dVx = 0, row_dVy = 0, row_dVz = 0\<rparr>,
                           \<lparr>row_epoch = 2, row_dVx = 2, row_dVy = 0, row_dVz = 0\<rparr>]\<rparr>"

section \<open>The simulator (simulator.py)\<close>

subsection \<open>What a run can be seen to do\<close>

text \<open>Exceptions that \<open>Simulator.__init__\<close> and \<open>Simulator.run\<close> can raise by themselves.\<close>

datatype py_error = KeyError | AttributeError | TypeError | ZeroDivisionError

text \<open>
  The records written to the logger, with the arguments of their format strings:
  \<open>log_protected_position\<close> and \<open>log_debris_positions\<close> (the position of an object at the
  current time), \<open>log_iteration\<close>, \<open>log_reward_action\<close> and \<open>log_bad_action\<close>.
\<close>

datatype level = DEBUG | INFO | WARNING

datatype log_msg =
    Position_protected real
  | Position_debris nat real
  | Iteration nat real real
  | Reward_action nat real real real real real
  | Bad_action real real real string

text \<open>The method calls that the simulator makes on its environment.\<close>

datatype env_call =
    Propagate_forward real "int option"
  | Get_next_action
  | Get_state
  | Get_reward
  | Act action
  | Get_fuel_consumption
  | Get_trajectory_deviation
  | Get_collision_probability

text \<open>The calls on the visualizer and what \<open>run\<close> prints when \<open>print_out\<close> is set.\<close>

datatype vis_call =
    Visualizer_init
  | Vis_run
  | Plot_protected
  | Plot_debris
  | Plot_earth
  | Plot_prob_fuel_reward
  | Pause_and_clear
  | Plot_iteration

datatype print_msg =
    Simulation_started real real real
  | Protected_object
  | Debris_object nat
  | Simulation_ended real real real real

datatype event =
    Env_call env_call
  | Agent_call state
  | Log level log_msg
  | Vis vis_call
  | Print print_msg

subsection \<open>The collaborators\<close>

text \<open>
  The environment class and the agent handed to a simulator are not part of the simulator
  module. They are parameters of the model: an environment object is a value of type
  \<open>'env\<close>, an agent object a value of type \<open>'ag\<close>, and \<open>ports\<close> gives what their methods
  and attributes do. \<open>propagate_forward\<close> and \<open>act\<close> change the environment, \<open>act\<close>
  answers \<open>None\<close> or a message, the agent's \<open>get_action\<close> changes the agent; the other
  methods and the attributes \<open>init_params\<close>, \<open>total_collision_probability\<close>, \<open>reward\<close>
  and \<open>debris\<close> (here the number of debris objects) read the environment. The attributes
  \<open>reward_components\<close> and \<open>last_r_p_update\<close> are only handed on to the plot and are left
  out.
\<close>

record ('ag, 'env) ports =
  init_params :: "'env \<Rightarrow> string \<rightharpoonup> real"
  propagate_forward :: "real \<Rightarrow> int option \<Rightarrow> 'env \<Rightarrow> 'env"
  get_next_action :: "'env \<Rightarrow> real"
  get_state :: "'env \<Rightarrow> state"
  act :: "action \<Rightarrow> 'env \<Rightarrow> string option \<times> 'env"
  get_reward :: "'env \<Rightarrow> real"
  get_fuel_consumption :: "'env \<Rightarrow> real"
  get_trajectory_deviation :: "'env \<Rightarrow> real"
  get_collision_probability :: "'env \<Rightarrow> real"
  total_collision_probability :: "'env \<Rightarrow> real"
  reward :: "'env \<Rightarrow> real"
  debris :: "'env \<Rightarrow> nat"
  agent_get_action :: "state \<Rightarrow> 'ag \<Rightarrow> action \<times> 'ag"

subsection \<open>The simulator object\<close>

text \<open>
  The attributes that \<open>__init__\<close> sets. \<open>vis\<close> and the four series are \<open>None\<close> until a
  visualized run sets them. \<open>trace\<close> is not an attribute: it is the history of what the
  object has done so far (calls on the collaborators, log records, printed lines), in
  order.
\<close>

record ('ag, 'env) Simulator =
  agent :: 'ag
  env :: 'env
  start_time :: real
  end_time :: real
  curr_time :: real
  print_out :: bool
  update_r_p_step :: "int option"
  vis :: "unit option"
  time_arr :: "real list option"
  prob_arr :: "real list option"
  fuel_cons_arr :: "real list option"
  reward_arr :: "real list option"
  trace :: "event list"

text \<open>An exception leaves the object as it was when the exception was raised.\<close>

type_synonym ('ag, 'env) raised = "py_error \<times> ('ag, 'env) Simulator"

text \<open>
  \<open>Simulator.__init__\<close>: reads the two entries of \<open>env.init_params\<close> (a missing key
  raises) and stores its arguments. It takes no step and compares nothing.
\<close>

definition Simulator_init ::
  "('ag, 'env) ports \<Rightarrow> 'ag \<Rightarrow> 'env \<Rightarrow> int option \<Rightarrow> bool \<Rightarrow> py_error + ('ag, 'env) Simulator" where
  "Simulator_init p ag e update_step po =
     (case init_params p e ''start_time'' of
        None \<Rightarrow> Inl KeyError
      | Some t0 \<Rightarrow>
          (case init_params p e ''end_time'' of
             None \<Rightarrow> Inl KeyError
           | Some t1 \<Rightarrow>
               Inr \<lparr>agent = ag, env = e, start_time = t0, end_time = t1, curr_time = t0,
                    print_out = po, update_r_p_step = update_step, vis = None,
                    time_arr = None, prob_arr = None, fuel_cons_arr = None,
                    reward_arr = None, trace = []\<rparr>))"

definition emit :: "event list \<Rightarrow> ('ag, 'env) Simulator \<Rightarrow> ('ag, 'env) Simulator" where
  "emit es s = s\<lparr>trace := trace s @ es\<rparr>"

subsection \<open>The logging methods\<close>

definition log_protected_position :: "('ag, 'env) Simulator \<Rightarrow> ('ag, 'env) Simulator" where
  "log_protected_position s = emit [Log INFO (Position_protected (curr_time s))] s"

text \<open>One record for each object of \<open>env.debris\<close>.\<close>

definition log_debris_positions ::
  "('ag, 'env) ports \<Rightarrow> ('ag, 'env) Simulator \<Rightarrow> ('ag, 'env) Simulator" where
  "log_debris_positions p s =
     emit (map (\<lambda>i. Log INFO (Position_debris i (curr_time s))) [0 ..< debris p (env s)]) s"

definition log_iteration ::
  "('ag, 'env) ports \<Rightarrow> nat \<Rightarrow> ('ag, 'env) Simulator \<Rightarrow> ('ag, 'env) Simulator" where
  "log_iteration p iteration s =
     emit [Log DEBUG (Iteration iteration (curr_time s) (total_collision_probability p (env s)))] s"

text \<open>
  The format string of \<open>log_reward_action\<close> has four places after the reward and is
  given the five entries of the action: it prints entries 0 to 3, so its last place
  holds the maneuver epoch.
\<close>

definition log_reward_action ::
  "nat \<Rightarrow> real \<Rightarrow> action \<Rightarrow> ('ag, 'env) Simulator \<Rightarrow> ('ag, 'env) Simulator" where
  "log_reward_action iteration r a s =
     emit [Log INFO (Reward_action iteration r (dVx a) (dVy a) (dVz a) (maneuver_epoch a))] s"

definition log_bad_action ::
  "string \<Rightarrow> action \<Rightarrow> ('ag, 'env) Simulator \<Rightarrow> ('ag, 'env) Simulator" where
  "log_bad_action message a s = emit [Log WARNING (Bad_action (dVx a) (dVy a) (dVz a) message)] s"

subsection \<open>Float addition\<close>

text \<open>
  \<open>+\<close> on two floats is the exact sum rounded to the nearest double, a tie going to the
  double whose last bit is even. A double has 53 significant bits: in the binade from
  \<open>2 ^ e\<close> up to \<open>2 ^ (e + 1)\<close> the doubles are the multiples of \<open>2 ^ (e - 52)\<close>, and
  below \<open>2 ^ - 1022\<close> (the subnormal range) they are the multiples of \<open>2 ^ - 1074\<close>.
  A sum beyond the largest double is an infinity in Python; here it stays the real it
  rounds to, which like the infinity is greater than every double.
\<close>

text \<open>Rounding to the nearest integer, ties to even.\<close>

definition round_even :: "real \<Rightarrow> int" where
  "round_even x =
     (let f = \<lfloor>x\<rfloor>; d = x - of_int f
      in if d < 1 / 2 then f else if 1 / 2 < d then f + 1 else if even f then f else f + 1)"

text \<open>The exponent \<open>e\<close> of the binade of a positive real: \<open>2 ^ e \<le> x < 2 ^ (e + 1)\<close>.\<close>

definition ilog2 :: "real \<Rightarrow> int" where
  "ilog2 x = (if 1 \<le> x then bitlen \<lfloor>x\<rfloor> - 1 else - bitlen (\<lceil>1 / x\<rceil> - 1))"

text \<open>The spacing of the doubles around a positive real.\<close>

definition ulp :: "real \<Rightarrow> real" where
  "ulp x = 2 powi (max (ilog2 x) (- 1022) - 52)"

definition rnd :: "real \<Rightarrow> real" where
  "rnd x = of_int (round_even (x / ulp x)) * ulp x"

text \<open>The double nearest to a real; this is also how a decimal literal is read.\<close>

definition to_float :: "real \<Rightarrow> real" where
  "to_float x = (if x = 0 then 0 else if 0 < x then rnd x else - rnd (- x))"

definition float_add :: "real \<Rightarrow> real \<Rightarrow> real" where
  "float_add x y = to_float (x + y)"

subsection \<open>One iteration of the loop of \<open>run\<close>\<close>

text \<open>
  The body of \<open>if self.curr_time.mjd2000 >= self.env.get_next_action().mjd2000\<close>: state,
  action, reward before the action, \<open>act\<close>, the warning when \<open>err\<close> is true (Python
  truth: neither \<open>None\<close> nor the empty string), and the reward record.
\<close>

definition poll ::
  "('ag, 'env) ports \<Rightarrow> nat \<Rightarrow> ('ag, 'env) Simulator \<Rightarrow> ('ag, 'env) Simulator" where
  "poll p iteration s =
     (let snapshot = get_state p (env s);
          res = agent_get_action p snapshot (agent s);
          a = fst res;
          r = get_reward p (env s);
          out = act p a (env s);
          s' = emit [Env_call Get_state, Agent_call snapshot, Env_call Get_reward,
                     Env_call (Act a)]
                 (s\<lparr>agent := snd res, env := snd out\<rparr>);
          s'' = (case fst out of
                   None \<Rightarrow> s'
                 | Some message \<Rightarrow> if message = [] then s' else log_bad_action message a s')
      in log_reward_action iteration r a s'')"

text \<open>
  The iteration up to the position logs: \<open>propagate_forward\<close>, the comparison with
  \<open>get_next_action\<close>, the poll when it is due, the three logging calls.
\<close>

definition decide_and_log ::
  "('ag, 'env) ports \<Rightarrow> nat \<Rightarrow> ('ag, 'env) Simulator \<Rightarrow> ('ag, 'env) Simulator" where
  "decide_and_log p iteration s =
     (let s1 = emit [Env_call (Propagate_forward (curr_time s) (update_r_p_step s))]
                 (s\<lparr>env := propagate_forward p (curr_time s) (update_r_p_step s) (env s)\<rparr>);
          s2 = emit [Env_call Get_next_action] s1;
          s3 = (if curr_time s2 \<ge> get_next_action p (env s2) then poll p iteration s2 else s2)
      in log_debris_positions p (log_protected_position (log_iteration p iteration s3)))"

text \<open>
  The body of \<open>if visualize\<close>. The plotting methods go through \<open>self.vis\<close>, which is
  \<open>None\<close> unless a visualized run has set it. \<open>iteration % self.update_r_p_step\<close> raises
  \<open>TypeError\<close> for \<open>None\<close> and \<open>ZeroDivisionError\<close> for \<open>0\<close>; Python's \<open>%\<close> on integers is
  the \<open>mod\<close> of \<open>int\<close>. The four \<open>append\<close> calls run in order, each on a list or on
  \<open>None\<close>.
\<close>

definition plot_step ::
  "('ag, 'env) ports \<Rightarrow> nat \<Rightarrow> ('ag, 'env) Simulator \<Rightarrow> ('ag, 'env) raised + ('ag, 'env) Simulator" where
  "plot_step p iteration s =
     (case vis s of
        None \<Rightarrow> Inl (AttributeError, s)
      | Some v \<Rightarrow>
          (let s1 = emit [Vis Plot_protected, Vis Plot_debris, Vis Plot_earth,
                          Env_call Get_fuel_consumption, Env_call Get_trajectory_deviation] s;
               pr = total_collision_probability p (env s1);
               f = get_fuel_consumption p (env s1);
               r = reward p (env s1)
           in case update_r_p_step s1 of
                None \<Rightarrow> Inl (TypeError, s1)
              | Some u \<Rightarrow>
                  if u = 0 then Inl (ZeroDivisionError, s1)
                  else if int iteration mod u = 0 then
                    (case time_arr s1 of
                       None \<Rightarrow> Inl (AttributeError, s1)
                     | Some ts \<Rightarrow>
                    (case prob_arr s1 of
                       None \<Rightarrow> Inl (AttributeError, s1\<lparr>time_arr := Some (ts @ [curr_time s1])\<rparr>)
                     | Some ps \<Rightarrow>
                    (case fuel_cons_arr s1 of
                       None \<Rightarrow> Inl (AttributeError, s1\<lparr>time_arr := Some (ts @ [curr_time s1]),
                                                      prob_arr := Some (ps @ [pr])\<rparr>)
                     | Some fs \<Rightarrow>
                    (case reward_arr s1 of
                       None \<Rightarrow> Inl (AttributeError, s1\<lparr>time_arr := Some (ts @ [curr_time s1]),
                                                      prob_arr := Some (ps @ [pr]),
                                                      fuel_cons_arr := Some (fs @ [f])\<rparr>)
                     | Some rs \<Rightarrow>
                         Inr (emit [Vis Plot_prob_fuel_reward, Vis Pause_and_clear, Vis Plot_iteration]
                               (s1\<lparr>time_arr := Some (ts @ [curr_time s1]),
                                   prob_arr := Some (ps @ [pr]),
                                   fuel_cons_arr := Some (fs @ [f]),
                                   reward_arr := Some (rs @ [r])\<rparr>))))))
                  else Inr (emit [Vis Plot_prob_fuel_reward, Vis Pause_and_clear, Vis Plot_iteration] s1)))"

text \<open>
  The whole body of the \<open>while\<close> loop, ending with the advance of the clock:
  \<open>self.curr_time = pk.epoch(self.curr_time.mjd2000 + step, "mjd2000")\<close>, a float addition.
\<close>

definition loop_body ::
  "('ag, 'env) ports \<Rightarrow> real \<Rightarrow> bool \<Rightarrow> nat \<Rightarrow> ('ag, 'env) Simulator
     \<Rightarrow> ('ag, 'env) raised + ('ag, 'env) Simulator" where
  "loop_body p step visualize iteration s =
     (let s4 = decide_and_log p iteration s
      in case (if visualize then plot_step p iteration s4 else Inr s4) of
           Inl ex \<Rightarrow> Inl ex
         | Inr s5 \<Rightarrow> Inr (s5\<lparr>curr_time := float_add (curr_time s5) step\<rparr>))"

subsection \<open>\<open>Simulator.run\<close>\<close>

text \<open>
  \<open>while self.curr_time.mjd2000 <= self.end_time.mjd2000\<close>, with the local counter
  \<open>iteration\<close>. The loop need not end, so not returning is the value \<open>None\<close>.
\<close>

partial_function (option) run_loop ::
  "('ag, 'env) ports \<Rightarrow> real \<Rightarrow> bool \<Rightarrow> nat \<Rightarrow> ('ag, 'env) Simulator
     \<Rightarrow> (('ag, 'env) raised + ('ag, 'env) Simulator \<times> nat) option" where
  "run_loop p step visualize iteration s =
     (if curr_time s \<le> end_time s then
        (case loop_body p step visualize iteration s of
           Inl ex \<Rightarrow> Some (Inl ex)
         | Inr s' \<Rightarrow> run_loop p step visualize (iteration + 1) s')
      else Some (Inr (s, iteration)))"

text \<open>What \<open>run\<close> does before the loop: the visualizer and the series, the printed header.\<close>

definition before_loop ::
  "('ag, 'env) ports \<Rightarrow> real \<Rightarrow> bool \<Rightarrow> ('ag, 'env) Simulator \<Rightarrow> ('ag, 'env) Simulator" where
  "before_loop p step visualize s =
     (let s1 = (if visualize then
                  emit [Vis Visualizer_init, Vis Vis_run, Env_call Get_fuel_consumption]
                    (s\<lparr>vis := Some (),
                       time_arr := Some [curr_time s],
                       prob_arr := Some [total_collision_probability p (env s)],
                       fuel_cons_arr := Some [get_fuel_consumption p (env s)],
                       reward_arr := Some [reward p (env s)]\<rparr>)
                else s)
      in if print_out s1 then
           emit (Print (Simulation_started (start_time s1) (end_time s1) step) # Print Protected_object
                 # map (\<lambda>i. Print (Debris_object i)) [0 ..< debris p (env s1)]) s1
         else s1)"

text \<open>
  What \<open>run\<close> does after the loop: one position log, the printed summary, and the value
  of \<open>self.env.get_reward()\<close> as the result.
\<close>

definition after_loop ::
  "('ag, 'env) ports \<Rightarrow> ('ag, 'env) Simulator \<Rightarrow> real \<times> ('ag, 'env) Simulator" where
  "after_loop p s =
     (let s1 = log_protected_position s;
          s2 = (if print_out s1 then
                  emit [Env_call Get_collision_probability, Env_call Get_reward,
                        Env_call Get_fuel_consumption, Env_call Get_trajectory_deviation,
                        Print (Simulation_ended (get_collision_probability p (env s1))
                                 (get_reward p (env s1)) (get_fuel_consumption p (env s1))
                                 (get_trajectory_deviation p (env s1)))] s1
                else s1)
      in (get_reward p (env s2), emit [Env_call Get_reward] s2))"

text \<open>
  \<open>run(step, visualize)\<close>: \<open>None\<close> when it does not return, otherwise the exception with
  the object as it left it, or the reward returned with the object as the run left it.
\<close>

definition run ::
  "('ag, 'env) ports \<Rightarrow> real \<Rightarrow> bool \<Rightarrow> ('ag, 'env) Simulator
     \<Rightarrow> (('ag, 'env) raised + real \<times> ('ag, 'env) Simulator) option" where
  "run p step visualize s =
     (case run_loop p step visualize 0 (before_loop p step visualize s) of
        None \<Rightarrow> None
      | Some (Inl ex) \<Rightarrow> Some (Inl ex)
      | Some (Inr (s', iteration)) \<Rightarrow> Some (Inr (after_loop p s')))"

subsection \<open>Reading a trace\<close>

text \<open>An iteration of the loop starts with its call of \<open>propagate_forward\<close>.\<close>

definition is_propagate :: "event \<Rightarrow> bool" where
  "is_propagate e = (case e of Env_call (Propagate_forward t u) \<Rightarrow> True | _ \<Rightarrow> False)"

definition iterations_in :: "event list \<Rightarrow> nat" where
  "iterations_in es = length (filter is_propagate es)"

text \<open>The events of a poll: \<open>get_state\<close>, the agent's \<open>get_action\<close>, \<open>act\<close>.\<close>

definition polls :: "event \<Rightarrow> bool" where
  "polls e = (case e of Env_call Get_state \<Rightarrow> True | Env_call (Act a) \<Rightarrow> True
                | Agent_call x \<Rightarrow> True | _ \<Rightarrow> False)"

text \<open>The object as a step leaves it, whether the step raised or not.\<close>

definition left_by :: "('ag, 'env) raised + ('ag, 'env) Simulator \<Rightarrow> ('ag, 'env) Simulator" where
  "left_by r = (case r of Inl ex \<Rightarrow> snd ex | Inr s \<Rightarrow> s)"

definition new_events :: "('ag, 'env) Simulator \<Rightarrow> ('ag, 'env) Simulator \<Rightarrow> event list" where
  "new_events s s' = drop (length (trace s)) (trace s')"

text \<open>The lengths of the four series of a visualized run.\<close>

definition series_lengths ::
  "('ag, 'env) Simulator \<Rightarrow> nat option \<times> nat option \<times> nat option \<times> nat option" where
  "series_lengths s = (map_option length (time_arr s), map_option length (prob_arr s),
                       map_option length (fuel_cons_arr s), map_option length (reward_arr s))"

text \<open>
  The visualizer and the four series are set and \<open>update_r_p_step\<close> is a non-zero
  integer: what the plotting part of an iteration needs in order not to raise.
\<close>

definition can_plot :: "('ag, 'env) Simulator \<Rightarrow> bool" where
  "can_plot s = (vis s \<noteq> None \<and> time_arr s \<noteq> None \<and> prob_arr s \<noteq> None \<and>
     fuel_cons_arr s \<noteq> None \<and> reward_arr s \<noteq> None \<and>
     (case update_r_p_step s of None \<Rightarrow> False | Some u \<Rightarrow> u \<noteq> 0))"

text \<open>The number of iterations of a run that returned, and the lengths of its series.\<close>

definition iterations_of ::
  "(('ag, 'env) raised + real \<times> ('ag, 'env) Simulator) option \<Rightarrow> nat option" where
  "iterations_of res =
     (case res of Some (Inr out) \<Rightarrow> Some (iterations_in (trace (snd out))) | _ \<Rightarrow> None)"

definition series_of ::
  "(('ag, 'env) raised + real \<times> ('ag, 'env) Simulator) option
     \<Rightarrow> (nat option \<times> nat option \<times> nat option \<times> nat option) option" where
  "series_of res =
     (case res of Some (Inr out) \<Rightarrow> Some (series_lengths (snd out)) | _ \<Rightarrow> None)"

text \<open>
  A run is not interrupted by the plotting part: it is not visualized, or
  \<open>update_r_p_step\<close> is a non-zero integer.
\<close>

definition step_ok :: "bool \<Rightarrow> ('ag, 'env) Simulator \<Rightarrow> bool" where
  "step_ok visualize s =
     (\<not> visualize \<or> (case update_r_p_step s of None \<Rightarrow> False | Some u \<Rightarrow> u \<noteq> 0))"

text \<open>The records of \<open>log_protected_position\<close> in a trace.\<close>

definition is_protected_log :: "event \<Rightarrow> bool" where
  "is_protected_log e = (case e of Log l (Position_protected t) \<Rightarrow> True | _ \<Rightarrow> False)"

definition protected_logs :: "event list \<Rightarrow> nat" where
  "protected_logs es = length (filter is_protected_log es)"

subsection \<open>The clock and the iterations of a run\<close>

text \<open>
  The values that the clock takes from \<open>c\<close> on: \<open>clock c step k\<close> is \<open>c\<close> after \<open>k\<close>
  advances by \<open>step\<close>.
\<close>

fun clock :: "real \<Rightarrow> real \<Rightarrow> nat \<Rightarrow> real" where
  "clock c step 0 = c"
| "clock c step (Suc k) = clock (float_add c step) step k"

text \<open>
  The object on entry to the \<open>k\<close>-th iteration after the one numbered \<open>iteration\<close>, for
  the loop started on \<open>s\<close>: \<open>None\<close> when the loop does not get there, because the clock
  has passed the end time or an earlier iteration raised.
\<close>

fun loop_state ::
  "('ag, 'env) ports \<Rightarrow> real \<Rightarrow> bool \<Rightarrow> nat \<Rightarrow> nat \<Rightarrow> ('ag, 'env) Simulator
     \<Rightarrow> ('ag, 'env) Simulator option" where
  "loop_state p step visualize iteration 0 s =
     (if curr_time s \<le> end_time s then Some s else None)"
| "loop_state p step visualize iteration (Suc k) s =
     (if curr_time s \<le> end_time s then
        (case loop_body p step visualize iteration s of
           Inl ex \<Rightarrow> None
         | Inr s' \<Rightarrow> loop_state p step visualize (iteration + 1) k s')
      else None)"

text \<open>The object on entry to iteration \<open>k\<close> of \<open>run\<close> called on \<open>s\<close>.\<close>

definition entered ::
  "('ag, 'env) ports \<Rightarrow> real \<Rightarrow> bool \<Rightarrow> ('ag, 'env) Simulator \<Rightarrow> nat
     \<Rightarrow> ('ag, 'env) Simulator option" where
  "entered p step visualize s k = loop_state p step visualize 0 k (before_loop p step visualize s)"

text \<open>The object as a call of \<open>run\<close> that returned or raised has left it.\<close>

definition object_of ::
  "('ag, 'env) raised + real \<times> ('ag, 'env) Simulator \<Rightarrow> ('ag, 'env) Simulator" where
  "object_of res = (case res of Inl ex \<Rightarrow> snd ex | Inr out \<Rightarrow> snd out)"

subsection \<open>Reading one iteration\<close>

text \<open>
  The environment as the call of \<open>propagate_forward\<close> at the start of an iteration
  leaves it; the comparison \<open>self.curr_time.mjd2000 >= self.env.get_next_action().mjd2000\<close>
  is made on that environment.
\<close>

definition propagated :: "('ag, 'env) ports \<Rightarrow> ('ag, 'env) Simulator \<Rightarrow> 'env" where
  "propagated p s = propagate_forward p (curr_time s) (update_r_p_step s) (env s)"

definition due :: "('ag, 'env) ports \<Rightarrow> ('ag, 'env) Simulator \<Rightarrow> bool" where
  "due p s = (get_next_action p (propagated p s) \<le> curr_time s)"

text \<open>The action that the agent returns when it is polled in this iteration.\<close>

definition offered :: "('ag, 'env) ports \<Rightarrow> ('ag, 'env) Simulator \<Rightarrow> action" where
  "offered p s = fst (agent_get_action p (get_state p (propagated p s)) (agent s))"

text \<open>
  The records of \<open>log_iteration\<close>, \<open>log_protected_position\<close> and \<open>log_debris_positions\<close>
  of one iteration, at time \<open>t\<close> on the environment \<open>e\<close>.
\<close>

definition telemetry_at :: "('ag, 'env) ports \<Rightarrow> nat \<Rightarrow> real \<Rightarrow> 'env \<Rightarrow> event list" where
  "telemetry_at p iteration t e =
     [Log DEBUG (Iteration iteration t (total_collision_probability p e)),
      Log INFO (Position_protected t)] @
     map (\<lambda>i. Log INFO (Position_debris i t)) [0 ..< debris p e]"

definition is_telemetry :: "event \<Rightarrow> bool" where
  "is_telemetry e =
     (case e of
        Log l (Iteration i t pr) \<Rightarrow> True
      | Log l (Position_protected t) \<Rightarrow> True
      | Log l (Position_debris i t) \<Rightarrow> True
      | _ \<Rightarrow> False)"

text \<open>What one iteration adds to the trace, whether it raised or not.\<close>

definition iteration_events ::
  "('ag, 'env) ports \<Rightarrow> real \<Rightarrow> bool \<Rightarrow> nat \<Rightarrow> ('ag, 'env) Simulator \<Rightarrow> event list" where
  "iteration_events p step visualize iteration s =
     new_events s (left_by (loop_body p step visualize iteration s))"

text \<open>
  Two simulator objects agree on what the loop condition and the plotting part read: the
  clock, the end time, \<open>update_r_p_step\<close>, the visualizer and the lengths of the series.
  Two steps agree when both raise the same exception or both return, and the objects
  they leave agree in that sense.
\<close>

definition same_clock :: "('ag, 'env) Simulator \<Rightarrow> ('ag2, 'env2) Simulator \<Rightarrow> bool" where
  "same_clock s t = (curr_time s = curr_time t \<and> end_time s = end_time t \<and>
     update_r_p_step s = update_r_p_step t \<and> vis s = vis t \<and>
     series_lengths s = series_lengths t)"

definition same_step ::
  "('ag, 'env) raised + ('ag, 'env) Simulator \<Rightarrow> ('ag2, 'env2) raised + ('ag2, 'env2) Simulator
     \<Rightarrow> bool" where
  "same_step r r' =
     (case r of
        Inl ex \<Rightarrow> (case r' of Inl ex' \<Rightarrow> fst ex = fst ex' \<and> same_clock (snd ex) (snd ex')
                    | Inr t \<Rightarrow> False)
      | Inr s \<Rightarrow> (case r' of Inl ex' \<Rightarrow> False | Inr t \<Rightarrow> same_clock s t))"

subsection \<open>A small environment for the examples\<close>

text \<open>
  An environment that remembers the epoch it was propagated to, asks for the next action
  at a fixed epoch and gives a fixed answer to every \<open>act\<close>; the agent is a
  \<open>TableAgent\<close>.
\<close>

record toy_env =
  toy_start :: real
  toy_end :: real
  toy_now :: real
  toy_next :: real
  toy_answer :: "string option"

definition toy_ports :: "(TableAgent, toy_env) ports" where
  "toy_ports =
     \<lparr>init_params = (\<lambda>e. [''start_time'' \<mapsto> toy_start e, ''end_time'' \<mapsto> toy_end e]),
      propagate_forward = (\<lambda>t u e. e\<lparr>toy_now := t\<rparr>),
      get_next_action = toy_next,
      get_state = (\<lambda>e. state_at (toy_now e)),
      act = (\<lambda>a e. (toy_answer e, e)),
      get_reward = (\<lambda>e. - 1),
      get_fuel_consumption = (\<lambda>e. 0),
      get_trajectory_deviation = (\<lambda>e. 0),
      get_collision_probability = (\<lambda>e. 0),
      total_collision_probability = (\<lambda>e. 0),
      reward = (\<lambda>e. - 1),
      debris = (\<lambda>e. 1),
      agent_get_action = (\<lambda>x ag. (act_of (get_action x ag), agent_of (get_action x ag)))\<rparr>"

definition toy :: "real \<Rightarrow> real \<Rightarrow> real \<Rightarrow> string option \<Rightarrow> toy_env" where
  "toy t0 t1 next answer =
     \<lparr>toy_start = t0, toy_end = t1, toy_now = t0, toy_next = next, toy_answer = answer\<rparr>"

text \<open>The simulator that \<open>__init__\<close> builds on the small environment.\<close>

definition toy_sim ::
  "real \<Rightarrow> real \<Rightarrow> real \<Rightarrow> string option \<Rightarrow> int option \<Rightarrow> (TableAgent, toy_env) Simulator" where
  "toy_sim t0 t1 next answer update_step =
     \<lparr>agent = example_table, env = toy t0 t1 next answer, start_time = t0, end_time = t1,
      curr_time = t0, print_out = False, update_r_p_step = update_step, vis = None,
      time_arr = None, prob_arr = None, fuel_cons_arr = None, reward_arr = None, trace = []\<rparr>"

section \<open>Properties of the table-driven policy\<close>

lemma get_action_Nil:
  "table ag = [] \<Longrightarrow> get_action s ag = (noop (epoch s), s, ag, [Print_epoch (epoch s)])"
  by (simp add: get_action_def noop_def Let_def)

lemma get_action_wait:
  "table ag = r # rs \<Longrightarrow> epoch s < row_epoch r \<Longrightarrow>
   get_action s ag = (noop (epoch s), s, ag, [Print_epoch (epoch s)])"
  by (simp add: get_action_def noop_def Let_def)

lemma get_action_fire:
  "table ag = r # rs \<Longrightarrow> row_epoch r \<le> epoch s \<Longrightarrow>
   get_action s ag =
     (\<lparr>dVx = row_dVx r, dVy = row_dVy r, dVz = row_dVz r,
        maneuver_epoch = epoch s, time_to_req = 0\<rparr>,
      s, ag\<lparr>table := rs\<rparr>,
      [Print_epoch (epoch s),
       Print_maneuver \<lparr>dVx = row_dVx r, dVy = row_dVy r, dVz = row_dVz r,
                       maneuver_epoch = epoch s, time_to_req = 0\<rparr>])"
  by (simp add: get_action_def Let_def)

text \<open>
  C1. When the table has a first row whose epoch is at most the state's epoch,
  \<open>get_action\<close> returns that row's deltas with the state's epoch and
  \<open>time_to_req = 0\<close>, and the agent is left with the rest of the table. When the table
  is empty or the state's epoch is before the first row's epoch, it returns the no-op
  tagged with the state's epoch and leaves the agent as it was. The table
  \<open>[(6600.0, 1.0, 0.0, 0.0)]\<close> polled at 5999.9, 6600.0 and 6600.0001 gives no-op, the
  maneuver with \<open>dVx = 1.0\<close>, no-op.
\<close>

theorem get_action_fires_or_waits:
  "(table ag = r # rs \<and> row_epoch r \<le> epoch s \<longrightarrow>
      act_of (get_action s ag) =
        \<lparr>dVx = row_dVx r, dVy = row_dVy r, dVz = row_dVz r,
         maneuver_epoch = epoch s, time_to_req = 0\<rparr> \<and>
      agent_of (get_action s ag) = ag\<lparr>table := rs\<rparr>) \<and>
   (table ag = [] \<or> (table ag \<noteq> [] \<and> epoch s < row_epoch (hd (table ag))) \<longrightarrow>
      act_of (get_action s ag) = noop (epoch s) \<and> agent_of (get_action s ag) = ag) \<and>
   map (\<lambda>c. snd c)
     (calls [state_at 5999.9, state_at 6600.0, state_at 6600.0001] example_table) =
     [(noop 5999.9, False),
      (\<lparr>dVx = 1.0, dVy = 0, dVz = 0, maneuver_epoch = 6600.0, time_to_req = 0\<rparr>, True),
      (noop 6600.0001, False)]"
proof -
  have fire: "act_of (get_action s ag) =
        \<lparr>dVx = row_dVx r, dVy = row_dVy r, dVz = row_dVz r,
         maneuver_epoch = epoch s, time_to_req = 0\<rparr> \<and>
      agent_of (get_action s ag) = ag\<lparr>table := rs\<rparr>"
    if "table ag = r # rs" "row_epoch r \<le> epoch s"
    using that by (simp add: get_action_fire act_of_def agent_of_def)
  have wait: "act_of (get_action s ag) = noop (epoch s) \<and> agent_of (get_action s ag) = ag"
    if "table ag = [] \<or> (table ag \<noteq> [] \<and> epoch s < row_epoch (hd (table ag)))"
    using that
    by (cases "table ag") (simp_all add: get_action_Nil get_action_wait act_of_def agent_of_def)
  have ex: "map (\<lambda>c. snd c)
     (calls [state_at 5999.9, state_at 6600.0, state_at 6600.0001] example_table) =
     [(noop 5999.9, False),
      (\<lparr>dVx = 1.0, dVy = 0, dVz = 0, maneuver_epoch = 6600.0, time_to_req = 0\<rparr>, True),
      (noop 6600.0001, False)]"
    by (simp add: get_action_def act_of_def agent_of_def noop_def Let_def example_table_def
        example_row_def state_at_def fired_def)
  from fire wait ex show ?thesis by blast
qed

theorem get_action_fires_or_waits_witness:
  "table example_table = example_row # [] \<and>
   row_epoch example_row \<le> epoch (state_at 6600.0) \<and>
   act_of (get_action (state_at 6600.0) example_table) =
     \<lparr>dVx = 1.0, dVy = 0, dVz = 0, maneuver_epoch = 6600.0, time_to_req = 0\<rparr> \<and>
   agent_of (get_action (state_at 6600.0) example_table) = \<lparr>table = []\<rparr> \<and>
   table example_table \<noteq> [] \<and>
   epoch (state_at 5999.9) < row_epoch (hd (table example_table)) \<and>
   act_of (get_action (state_at 5999.9) example_table) = noop 5999.9 \<and>
   agent_of (get_action (state_at 5999.9) example_table) = example_table"
proof -
  have t: "table example_table = example_row # []"
    by (simp add: example_table_def)
  have due: "row_epoch example_row \<le> epoch (state_at 6600.0)"
    by (simp add: example_row_def state_at_def)
  have early: "epoch (state_at 5999.9) < row_epoch (hd (table example_table))"
    by (simp add: example_table_def example_row_def state_at_def)
  have ne: "table example_table \<noteq> []"
    by (simp add: example_table_def)
  note a = get_action_fires_or_waits
    [where ag = example_table and r = example_row and rs = "[]" and s = "state_at 6600.0"]
  note b = get_action_fires_or_waits
    [where ag = example_table and r = example_row and rs = "[]" and s = "state_at 5999.9"]
  from a t due have
    "act_of (get_action (state_at 6600.0) example_table) =
       \<lparr>dVx = row_dVx example_row, dVy = row_dVy example_row, dVz = row_dVz example_row,
        maneuver_epoch = epoch (state_at 6600.0), time_to_req = 0\<rparr> \<and>
     agent_of (get_action (state_at 6600.0) example_table) = example_table\<lparr>table := []\<rparr>"
    by blast
  moreover from b ne early have
    "act_of (get_action (state_at 5999.9) example_table) = noop (epoch (state_at 5999.9)) \<and>
     agent_of (get_action (state_at 5999.9) example_table) = example_table"
    by blast
  ultimately show ?thesis using t due early ne
    by (simp add: example_row_def state_at_def example_table_def)
qed

subsection \<open>Sequences of polls\<close>

text \<open>
  The rows fire in table order: after any sequence of polls the fired actions carry the
  deltas of a prefix of the table, and what is left of the table is the rest of it.
\<close>

lemma calls_prefix:
  "n_fired (calls ss ag) \<le> length (table ag) \<and>
   table (agent_after ss ag) = drop (n_fired (calls ss ag)) (table ag) \<and>
   map deltas (fired_actions (calls ss ag)) =
     map row_deltas (take (n_fired (calls ss ag)) (table ag)) \<and>
   (\<forall>c \<in> set (calls ss ag). \<not> snd (snd c) \<longrightarrow> fst (snd c) = noop (epoch (fst c)))"
proof (induction ss arbitrary: ag)
  case Nil
  show ?case by (simp add: n_fired_def fired_actions_def)
next
  case (Cons s ss)
  show ?case
  proof (cases "table ag")
    case Nil
    with Cons [of ag] show ?thesis
      by (simp add: get_action_Nil act_of_def agent_of_def fired_def n_fired_def
          fired_actions_def)
  next
    case (Cons r rs)
    show ?thesis
    proof (cases "row_epoch r \<le> epoch s")
      case True
      with Cons Cons.IH [of "ag\<lparr>table := rs\<rparr>"] show ?thesis
        by (simp add: get_action_fire act_of_def agent_of_def fired_def n_fired_def
            fired_actions_def deltas_def row_deltas_def)
    next
      case False
      with Cons Cons.IH [of ag] show ?thesis
        by (simp add: get_action_wait act_of_def agent_of_def fired_def n_fired_def
            fired_actions_def)
    qed
  qed
qed

lemma length_filter_mono:
  "(\<And>x. x \<in> set xs \<Longrightarrow> P x \<Longrightarrow> Q x) \<Longrightarrow> length (filter P xs) \<le> length (filter Q xs)"
  by (induction xs) auto

text \<open>As many polls at or after every row's epoch as there are rows empty the table.\<close>

lemma agent_after_empties:
  "length (table ag) \<le> length (filter (due_everywhere ag) ss) \<Longrightarrow>
   table (agent_after ss ag) = []"
proof (induction ss arbitrary: ag)
  case Nil
  then show ?case by simp
next
  case (Cons s ss)
  show ?case
  proof (cases "table ag")
    case Nil
    have "table (agent_after ss ag) = []"
      by (rule Cons.IH) (simp add: Nil)
    then show ?thesis by (simp add: get_action_Nil Nil agent_of_def)
  next
    case tb: (Cons r rs)
    show ?thesis
    proof (cases "row_epoch r \<le> epoch s")
      case True
      have m: "length (filter (due_everywhere ag) ss)
                 \<le> length (filter (due_everywhere (ag\<lparr>table := rs\<rparr>)) ss)"
        by (rule length_filter_mono) (simp add: due_everywhere_def tb)
      from Cons.prems tb have "length rs \<le> length (filter (due_everywhere ag) ss)"
        by (simp split: if_splits)
      with m have "length (table (ag\<lparr>table := rs\<rparr>))
                     \<le> length (filter (due_everywhere (ag\<lparr>table := rs\<rparr>)) ss)"
        by simp
      then have "table (agent_after ss (ag\<lparr>table := rs\<rparr>)) = []" by (rule Cons.IH)
      with True tb show ?thesis by (simp add: get_action_fire agent_of_def)
    next
      case False
      then have "\<not> due_everywhere ag s" by (auto simp: due_everywhere_def tb)
      with Cons.prems have "length (table ag) \<le> length (filter (due_everywhere ag) ss)"
        by simp
      then have "table (agent_after ss ag) = []" by (rule Cons.IH)
      with False tb show ?thesis by (simp add: get_action_wait agent_of_def)
    qed
  qed
qed

text \<open>
  C2, as the code has it. One call fires at most one row, so a sequence of polls fires
  every row of an N-row table only if it is long enough: when at least N of the polls
  are at or after the epoch of every row, exactly N calls fire and the table ends empty.
  For every sequence of polls, at most N calls fire, the fired actions carry the deltas
  of the first rows of the table in table order (each row at most once), the rest of the
  table is what remains, and every call that does not fire returns the no-op tagged with
  its epoch. When the table is empty or its first row is not yet due at a state, two
  consecutive polls at that state both return the no-op and neither fires.
\<close>

theorem polls_fire_each_row_once:
  "(length (table ag) \<le> length (filter (due_everywhere ag) ss) \<longrightarrow>
      n_fired (calls ss ag) = length (table ag) \<and> table (agent_after ss ag) = []) \<and>
   n_fired (calls ss ag) \<le> length (table ag) \<and>
   table (agent_after ss ag) = drop (n_fired (calls ss ag)) (table ag) \<and>
   map deltas (fired_actions (calls ss ag)) =
     map row_deltas (take (n_fired (calls ss ag)) (table ag)) \<and>
   (\<forall>c \<in> set (calls ss ag). \<not> snd (snd c) \<longrightarrow> fst (snd c) = noop (epoch (fst c))) \<and>
   (table ag = [] \<or> epoch s < row_epoch (hd (table ag)) \<longrightarrow>
      calls [s, s] ag = [(s, noop (epoch s), False), (s, noop (epoch s), False)])"
proof -
  note p = calls_prefix [of ss ag]
  have a: "n_fired (calls ss ag) = length (table ag)" if "table (agent_after ss ag) = []"
    using that p by simp
  have b: "calls [s, s] ag = [(s, noop (epoch s), False), (s, noop (epoch s), False)]"
    if "table ag = [] \<or> epoch s < row_epoch (hd (table ag))"
    using that
    by (cases "table ag")
      (simp_all add: get_action_Nil get_action_wait act_of_def agent_of_def fired_def)
  show ?thesis using p a b agent_after_empties [of ag ss] by blast
qed

text \<open>
  The claim as written fails: the two-row table with epochs 1 and 2, polled once at
  epoch 5, fires once, not twice, although the poll is after every row's epoch.
\<close>

theorem single_poll_fires_one_row:
  "due_everywhere two_rows (state_at 5) \<and> length (table two_rows) = 2 \<and>
   n_fired (calls [state_at 5] two_rows) = 1 \<and>
   n_fired (calls [state_at 5] two_rows) \<noteq> length (table two_rows)"
  by (simp add: n_fired_def get_action_def act_of_def agent_of_def fired_def state_at_def
      Let_def two_rows_def due_everywhere_def)

theorem polls_fire_each_row_once_witness:
  "length (table two_rows)
     \<le> length (filter (due_everywhere two_rows)
                 [state_at 5, state_at 0, state_at 5, state_at 5]) \<and>
   n_fired (calls [state_at 5, state_at 0, state_at 5, state_at 5] two_rows) = 2 \<and>
   table (agent_after [state_at 5, state_at 0, state_at 5, state_at 5] two_rows) = [] \<and>
   epoch (state_at 0) < row_epoch (hd (table two_rows)) \<and>
   calls [state_at 0, state_at 0] two_rows =
     [(state_at 0, noop 0, False), (state_at 0, noop 0, False)]"
proof -
  have h: "length (table two_rows)
             \<le> length (filter (due_everywhere two_rows)
                         [state_at 5, state_at 0, state_at 5, state_at 5])"
    by (simp add: two_rows_def due_everywhere_def state_at_def)
  have e: "epoch (state_at 0) < row_epoch (hd (table two_rows))"
    by (simp add: two_rows_def state_at_def)
  have l: "length (table two_rows) = 2" by (simp add: two_rows_def)
  have z: "epoch (state_at 0) = 0" by (simp add: state_at_def)
  note t = polls_fire_each_row_once
    [where ag = two_rows and ss = "[state_at 5, state_at 0, state_at 5, state_at 5]"
       and s = "state_at 0"]
  from t h e l z show ?thesis by simp
qed

subsection \<open>The no-op action\<close>

text \<open>
  C6, as the code has it. The action that \<open>TableAgent.get_action\<close> returns when it does
  not fire has its three deltas zero and \<open>time_to_req = 0\<close>. The action that
  \<open>Agent.get_action\<close> returns has its three deltas zero and \<open>time_to_req = 0.001\<close>.
\<close>

theorem noop_actions_fields:
  "(table ag = [] \<or> epoch s < row_epoch (hd (table ag)) \<longrightarrow>
      dVx (act_of (get_action s ag)) = 0 \<and> dVy (act_of (get_action s ag)) = 0 \<and>
      dVz (act_of (get_action s ag)) = 0 \<and> time_to_req (act_of (get_action s ag)) = 0) \<and>
   dVx (fst (Agent_get_action s)) = 0 \<and> dVy (fst (Agent_get_action s)) = 0 \<and>
   dVz (fst (Agent_get_action s)) = 0 \<and> time_to_req (fst (Agent_get_action s)) = 0.001"
proof -
  have "act_of (get_action s ag) = noop (epoch s)"
    if "table ag = [] \<or> epoch s < row_epoch (hd (table ag))"
    using that
    by (cases "table ag") (simp_all add: get_action_Nil get_action_wait act_of_def)
  then show ?thesis by (simp add: noop_def Agent_get_action_def)
qed

theorem noop_actions_fields_witness:
  "epoch (state_at 5999.9) < row_epoch (hd (table example_table)) \<and>
   dVx (act_of (get_action (state_at 5999.9) example_table)) = 0 \<and>
   dVy (act_of (get_action (state_at 5999.9) example_table)) = 0 \<and>
   dVz (act_of (get_action (state_at 5999.9) example_table)) = 0 \<and>
   time_to_req (act_of (get_action (state_at 5999.9) example_table)) = 0"
proof -
  have early: "epoch (state_at 5999.9) < row_epoch (hd (table example_table))"
    by (simp add: example_table_def example_row_def state_at_def)
  from early noop_actions_fields [where ag = example_table and s = "state_at 5999.9"]
  show ?thesis by blast
qed

text \<open>
  The claim as written fails for \<open>Agent.get_action\<close>: its action has zero deltas and a
  \<open>time_to_req\<close> that is not zero.
\<close>

theorem Agent_noop_time_to_req_nonzero:
  "dVx (fst (Agent_get_action (state_at 0))) = 0 \<and>
   dVy (fst (Agent_get_action (state_at 0))) = 0 \<and>
   dVz (fst (Agent_get_action (state_at 0))) = 0 \<and>
   time_to_req (fst (Agent_get_action (state_at 0))) \<noteq> 0"
  by (simp add: Agent_get_action_def)

subsection \<open>What a poll leaves unchanged\<close>

text \<open>
  C10, as the code has it. \<open>get_action\<close> leaves the state dictionary as it received it.
  It changes the agent, hence the table, only when it fires, that is when the table has a
  first row whose epoch the state's epoch has reached: then the table after the call is
  the table before it without its first row, the other rows unchanged and in order, and
  the action carries the deltas of that row. When the table is empty or its first row is
  not yet due, the call returns the no-op and leaves the agent exactly as it was. An
  action that is not the no-op tells that the call fired; an action equal to the no-op
  does not tell that it did not: when the no-op comes back and the table has changed, the
  row that fired had three zero deltas.
\<close>

theorem get_action_frame:
  "state_of (get_action s ag) = s \<and>
   (table ag = [] \<or> epoch s < row_epoch (hd (table ag)) \<longrightarrow>
      act_of (get_action s ag) = noop (epoch s) \<and> agent_of (get_action s ag) = ag) \<and>
   (table ag \<noteq> [] \<and> row_epoch (hd (table ag)) \<le> epoch s \<longrightarrow>
      table ag = hd (table ag) # table (agent_of (get_action s ag)) \<and>
      deltas (act_of (get_action s ag)) = row_deltas (hd (table ag))) \<and>
   (agent_of (get_action s ag) \<noteq> ag \<longrightarrow>
      table ag \<noteq> [] \<and> row_epoch (hd (table ag)) \<le> epoch s) \<and>
   (act_of (get_action s ag) \<noteq> noop (epoch s) \<longrightarrow>
      table ag = hd (table ag) # table (agent_of (get_action s ag))) \<and>
   (act_of (get_action s ag) = noop (epoch s) \<and> agent_of (get_action s ag) \<noteq> ag \<longrightarrow>
      row_deltas (hd (table ag)) = (0, 0, 0))"
proof (cases "table ag")
  case Nil
  then show ?thesis
    by (simp add: get_action_Nil state_of_def act_of_def agent_of_def noop_def)
next
  case (Cons r rs)
  show ?thesis
  proof (cases "row_epoch r \<le> epoch s")
    case True
    with Cons show ?thesis
      by (auto simp: get_action_fire state_of_def act_of_def agent_of_def noop_def
          deltas_def row_deltas_def)
  next
    case False
    with Cons show ?thesis
      by (simp add: get_action_wait state_of_def act_of_def agent_of_def noop_def)
  qed
qed

theorem get_action_frame_witness:
  "epoch (state_at 0.5) < row_epoch (hd (table two_rows)) \<and>
   agent_of (get_action (state_at 0.5) two_rows) = two_rows \<and>
   table two_rows \<noteq> [] \<and>
   row_epoch (hd (table two_rows)) \<le> epoch (state_at 1.5) \<and>
   table two_rows = hd (table two_rows) # table (agent_of (get_action (state_at 1.5) two_rows)) \<and>
   table (agent_of (get_action (state_at 1.5) two_rows)) =
     [\<lparr>row_epoch = 2, row_dVx = 2, row_dVy = 0, row_dVz = 0\<rparr>] \<and>
   state_of (get_action (state_at 1.5) two_rows) = state_at 1.5 \<and>
   act_of (get_action (state_at 5) zero_first) = noop (epoch (state_at 5)) \<and>
   agent_of (get_action (state_at 5) zero_first) \<noteq> zero_first \<and>
   row_deltas (hd (table zero_first)) = (0, 0, 0)"
proof -
  have early: "epoch (state_at 0.5) < row_epoch (hd (table two_rows))"
    by (simp add: two_rows_def state_at_def)
  have ne: "table two_rows \<noteq> []"
    by (simp add: two_rows_def)
  have due: "row_epoch (hd (table two_rows)) \<le> epoch (state_at 1.5)"
    by (simp add: two_rows_def state_at_def)
  have tl: "table two_rows = [hd (table two_rows),
      \<lparr>row_epoch = 2, row_dVx = 2, row_dVy = 0, row_dVz = 0\<rparr>]"
    by (simp add: two_rows_def)
  have z: "act_of (get_action (state_at 5) zero_first) = noop (epoch (state_at 5))"
    by (simp add: get_action_def act_of_def zero_first_def state_at_def noop_def Let_def)
  have zc: "agent_of (get_action (state_at 5) zero_first) \<noteq> zero_first"
    by (simp add: get_action_def agent_of_def zero_first_def state_at_def Let_def)
  note a = get_action_frame [where ag = two_rows and s = "state_at 0.5"]
  note b = get_action_frame [where ag = two_rows and s = "state_at 1.5"]
  note c = get_action_frame [where ag = zero_first and s = "state_at 5"]
  from a early have w: "agent_of (get_action (state_at 0.5) two_rows) = two_rows"
    by blast
  from b ne due have f:
    "table two_rows = hd (table two_rows) # table (agent_of (get_action (state_at 1.5) two_rows))"
    by blast
  from f tl have "hd (table two_rows) # table (agent_of (get_action (state_at 1.5) two_rows)) =
      [hd (table two_rows), \<lparr>row_epoch = 2, row_dVx = 2, row_dVy = 0, row_dVz = 0\<rparr>]"
    by (rule trans [OF sym])
  then have r: "table (agent_of (get_action (state_at 1.5) two_rows)) =
      [\<lparr>row_epoch = 2, row_dVx = 2, row_dVy = 0, row_dVz = 0\<rparr>]"
    by (simp only: list.inject)
  from b have st: "state_of (get_action (state_at 1.5) two_rows) = state_at 1.5"
    by blast
  from c z zc have zd: "row_deltas (hd (table zero_first)) = (0, 0, 0)"
    by blast
  from early w ne due f r st z zc zd show ?thesis by blast
qed

text \<open>
  The claim as written fails: on a table whose first row is due and has three zero deltas
  the call returns an action equal to the no-op and removes the row.
\<close>

theorem noop_valued_action_removes_row:
  "act_of (get_action (state_at 5) zero_first) = noop (epoch (state_at 5)) \<and>
   table zero_first =
     [\<lparr>row_epoch = 1, row_dVx = 0, row_dVy = 0, row_dVz = 0\<rparr>,
      \<lparr>row_epoch = 2, row_dVx = 2, row_dVy = 0, row_dVz = 0\<rparr>] \<and>
   table (agent_of (get_action (state_at 5) zero_first)) =
     [\<lparr>row_epoch = 2, row_dVx = 2, row_dVy = 0, row_dVz = 0\<rparr>]"
  by (simp add: get_action_def act_of_def agent_of_def zero_first_def state_at_def noop_def
      Let_def)

section \<open>Properties of float addition\<close>

lemma round_even_mono: "x \<le> y \<Longrightarrow> round_even x \<le> round_even y"
proof -
  assume le: "x \<le> y"
  have fl: "\<lfloor>x\<rfloor> \<le> \<lfloor>y\<rfloor>" using le by (rule floor_mono)
  show ?thesis
  proof (cases "\<lfloor>x\<rfloor> = \<lfloor>y\<rfloor>")
    case True
    with le have "x - of_int \<lfloor>x\<rfloor> \<le> y - of_int \<lfloor>y\<rfloor>" by simp
    with True show ?thesis by (auto simp: round_even_def Let_def)
  next
    case False
    with fl have "\<lfloor>x\<rfloor> + 1 \<le> \<lfloor>y\<rfloor>" by simp
    moreover have "round_even x \<le> \<lfloor>x\<rfloor> + 1" by (simp add: round_even_def Let_def)
    moreover have "\<lfloor>y\<rfloor> \<le> round_even y" by (simp add: round_even_def Let_def)
    ultimately show ?thesis by linarith
  qed
qed

lemma round_even_of_int [simp]: "round_even (of_int m) = m"
  by (simp add: round_even_def)


lemma ilog2_bounds:
  assumes "0 < x"
  shows "2 powi (ilog2 x) \<le> x \<and> x < 2 powi (ilog2 x + 1)"
proof (cases "1 \<le> x")
  case True
  let ?n = "\<lfloor>x\<rfloor>"
  from True have n: "0 < ?n" by simp
  from bitlen_bounds [OF n] have b: "2 ^ nat (bitlen ?n - 1) \<le> ?n" "?n < 2 ^ nat (bitlen ?n)"
    by simp_all
  from n have bl: "1 \<le> bitlen ?n" using bitlen_eq_zero_iff [of ?n] bitlen_nonneg [of ?n] by linarith
  have e: "ilog2 x = bitlen ?n - 1" using True by (simp add: ilog2_def)
  have p1: "(2::real) powi (bitlen ?n - 1) = 2 ^ nat (bitlen ?n - 1)"
    using bl by (simp add: power_int_def)
  have p2: "(2::real) powi (bitlen ?n) = 2 ^ nat (bitlen ?n)"
    using bl by (simp add: power_int_def)
  have "(2::real) ^ nat (bitlen ?n - 1) \<le> real_of_int ?n" using b(1) by simp
  then have lo: "(2::real) ^ nat (bitlen ?n - 1) \<le> x"
    using of_int_floor_le [of x] by linarith
  from b(2) have "?n + 1 \<le> 2 ^ nat (bitlen ?n)" by simp
  then have "real_of_int (?n + 1) \<le> (2::real) ^ nat (bitlen ?n)"
    by (simp only: of_int_le_numeral_power_cancel_iff)
  moreover have "x < real_of_int ?n + 1" by linarith
  ultimately have hi: "x < (2::real) ^ nat (bitlen ?n)" by linarith
  from lo hi show ?thesis by (simp add: e p1 p2)
next
  case False
  define n where "n = \<lceil>1 / x\<rceil> - 1"
  define k where "k = nat (bitlen n - 1)"
  from False assms have y: "1 < 1 / x" by simp
  have c: "real_of_int n < 1 / x" "1 / x \<le> real_of_int n + 1"
    using ceiling_correct [of "1 / x"] by (simp_all add: n_def)
  from y c(2) have n: "0 < n" by linarith
  from n have bl: "1 \<le> bitlen n" using bitlen_eq_zero_iff [of n] bitlen_nonneg [of n] by linarith
  then have kk: "nat (bitlen n) = Suc k" "bitlen n = int k + 1" by (simp_all add: k_def)
  from bitlen_bounds [OF n] have b0: "2 ^ nat (bitlen n - 1) \<le> n" "n < 2 ^ nat (bitlen n)"
    by simp_all
  have b: "2 ^ k \<le> n" "n < 2 ^ Suc k"
    using b0(1) apply (simp only: k_def) using b0(2) apply (simp only: kk(1)) done
  have e: "ilog2 x = - (int k + 1)"
    using False by (simp add: ilog2_def n_def [symmetric] kk(2))
  have p1: "(2::real) powi (- (int k + 1)) = 1 / 2 ^ Suc k"
    by (simp only: power_int_minus_divide) (simp add: power_int_def nat_add_distrib)
  have p2: "(2::real) powi (- (int k + 1) + 1) = 1 / 2 ^ k"
  proof -
    have "- (int k + 1) + 1 = - int k" by simp
    then show ?thesis by (simp only: power_int_minus_divide) (simp add: power_int_def)
  qed
  from b(2) have "n + 1 \<le> 2 ^ Suc k" by simp
  then have "real_of_int (n + 1) \<le> (2::real) ^ Suc k"
    by (simp only: of_int_le_numeral_power_cancel_iff)
  then have "real_of_int n + 1 \<le> (2::real) ^ Suc k" by simp
  with c(2) have "1 / x \<le> 2 ^ Suc k" by linarith
  with assms have lo: "1 / 2 ^ Suc k \<le> x" by (simp add: field_simps)
  have "(2::real) ^ k \<le> real_of_int n" using b(1) by simp
  with c(1) have "2 ^ k < 1 / x" by linarith
  with assms have hi: "x < 1 / 2 ^ k" by (simp add: field_simps)
  from lo hi show ?thesis by (simp only: e p1 p2)
qed

lemma ilog2_eq:
  assumes "2 powi e \<le> x" and "x < 2 powi (e + 1)"
  shows "ilog2 x = e"
proof -
  have pos: "0 < x" using assms(1) zero_less_power_int [of "2::real" e] by linarith
  from ilog2_bounds [OF pos] have b: "2 powi (ilog2 x) \<le> x" "x < 2 powi (ilog2 x + 1)"
    by simp_all
  have "(2::real) powi (ilog2 x) < 2 powi (e + 1)" using b(1) assms(2) by linarith
  then have a: "ilog2 x < e + 1"
    using power_int_increasing [of "e + 1" "ilog2 x" "2::real"] by (cases "ilog2 x < e + 1") auto
  have "(2::real) powi e < 2 powi (ilog2 x + 1)" using b(2) assms(1) by linarith
  then have c: "e < ilog2 x + 1"
    using power_int_increasing [of "ilog2 x + 1" e "2::real"] by (cases "e < ilog2 x + 1") auto
  from a c show ?thesis by simp
qed

lemma ilog2_mono:
  assumes "0 < x" and "x \<le> y"
  shows "ilog2 x \<le> ilog2 y"
proof -
  from assms have py: "0 < y" by simp
  from ilog2_bounds [OF assms(1)] ilog2_bounds [OF py] assms(2)
  have "(2::real) powi (ilog2 x) < 2 powi (ilog2 y + 1)" by linarith
  then have "ilog2 x < ilog2 y + 1"
    using power_int_increasing [of "ilog2 y + 1" "ilog2 x" "2::real"]
    by (cases "ilog2 x < ilog2 y + 1") auto
  then show ?thesis by simp
qed

lemma ulp_pos: "0 < ulp x"
  by (simp add: ulp_def zero_less_power_int)

lemma powi_split52: "(2::real) powi (e - 52) = 2 powi e / 2 ^ 52"
  by (simp add: power_int_diff)

lemma powi_succ: "(2::real) powi (e + 1) = 2 * 2 powi e"
  by (simp add: power_int_add)

lemma ulp_binade:
  assumes "- 1022 \<le> e" and "2 powi e \<le> x" and "x < 2 powi (e + 1)"
  shows "ulp x = 2 powi (e - 52)"
  using ilog2_eq [OF assms(2,3)] assms(1) by (simp add: ulp_def max_def)

lemma rnd_binade:
  assumes "- 1022 \<le> e" and "2 powi e \<le> x" and "x < 2 powi (e + 1)"
  shows "rnd x = of_int (round_even (x / 2 powi (e - 52))) * 2 powi (e - 52)"
  by (simp add: rnd_def ulp_binade [OF assms])

lemma rnd_nonneg:
  assumes "0 < x"
  shows "0 \<le> rnd x"
proof -
  have "0 \<le> x / ulp x" using assms ulp_pos [of x] by simp
  then have "round_even 0 \<le> round_even (x / ulp x)" by (rule round_even_mono)
  then have "0 \<le> round_even (x / ulp x)" using round_even_of_int [of 0] by simp
  then show ?thesis using ulp_pos [of x] by (simp add: rnd_def)
qed

lemma rnd_upper:
  assumes "0 < x"
  shows "rnd x \<le> 2 powi (max (ilog2 x) (- 1022) + 1)"
proof -
  define E where "E = max (ilog2 x) (- 1022)"
  have u: "ulp x = 2 powi E / 2 ^ 52" by (simp add: ulp_def E_def [symmetric] powi_split52)
  have pE: "0 < (2::real) powi E" by (simp add: zero_less_power_int)
  from ilog2_bounds [OF assms] have "x < 2 powi (ilog2 x + 1)" by simp
  also have "\<dots> \<le> 2 powi (E + 1)" by (rule power_int_increasing) (simp_all add: E_def)
  finally have "x < 2 * 2 powi E" by (simp add: powi_succ)
  then have "x / ulp x \<le> real_of_int (2 ^ 53)" using pE by (simp add: u field_simps)
  then have "round_even (x / ulp x) \<le> round_even (real_of_int (2 ^ 53))"
    by (rule round_even_mono)
  then have "round_even (x / ulp x) \<le> 2 ^ 53" by (simp only: round_even_of_int)
  then have "real_of_int (round_even (x / ulp x)) \<le> 2 ^ 53" by simp
  then have "real_of_int (round_even (x / ulp x)) * ulp x \<le> 2 ^ 53 * ulp x"
    using ulp_pos [of x] by (simp only: mult_le_cancel_right) simp
  also have "2 ^ 53 * ulp x = 2 powi (E + 1)" by (simp add: u powi_succ)
  finally show ?thesis by (simp add: rnd_def E_def)
qed

lemma rnd_lower:
  assumes "0 < x" and "- 1022 \<le> ilog2 x"
  shows "2 powi (ilog2 x) \<le> rnd x"
proof -
  define E where "E = ilog2 x"
  have u: "ulp x = 2 powi E / 2 ^ 52"
    using assms(2) by (simp add: ulp_def E_def [symmetric] powi_split52 max_def)
  have pE: "0 < (2::real) powi E" by (simp add: zero_less_power_int)
  from ilog2_bounds [OF assms(1)] have "2 powi E \<le> x" by (simp add: E_def)
  then have "real_of_int (2 ^ 52) \<le> x / ulp x" using pE by (simp add: u field_simps)
  then have "round_even (real_of_int (2 ^ 52)) \<le> round_even (x / ulp x)"
    by (rule round_even_mono)
  then have "2 ^ 52 \<le> round_even (x / ulp x)" by (simp only: round_even_of_int)
  then have "2 ^ 52 \<le> real_of_int (round_even (x / ulp x))" by simp
  then have "2 ^ 52 * ulp x \<le> real_of_int (round_even (x / ulp x)) * ulp x"
    using ulp_pos [of x] by (simp only: mult_le_cancel_right) simp
  moreover have "2 ^ 52 * ulp x = 2 powi E" by (simp add: u)
  ultimately show ?thesis by (simp add: rnd_def E_def)
qed

lemma rnd_mono:
  assumes "0 < x" and "x \<le> y"
  shows "rnd x \<le> rnd y"
proof -
  from assms have py: "0 < y" by simp
  define Ex where "Ex = max (ilog2 x) (- 1022)"
  define Ey where "Ey = max (ilog2 y) (- 1022)"
  have le: "Ex \<le> Ey" using ilog2_mono [OF assms] by (simp add: Ex_def Ey_def)
  show ?thesis
  proof (cases "Ex = Ey")
    case True
    then have u: "ulp x = ulp y" by (simp add: ulp_def Ex_def Ey_def)
    have "x / ulp y \<le> y / ulp y" using assms(2) ulp_pos [of y] by (simp add: divide_right_mono)
    then have "round_even (x / ulp y) \<le> round_even (y / ulp y)" by (rule round_even_mono)
    then have "real_of_int (round_even (x / ulp y)) \<le> real_of_int (round_even (y / ulp y))"
      by simp
    then show ?thesis using ulp_pos [of y] by (simp add: rnd_def u)
  next
    case False
    with le have lt: "Ex + 1 \<le> Ey" by simp
    then have "- 1022 < Ey" by (simp add: Ex_def)
    then have ey: "Ey = ilog2 y" "- 1022 \<le> ilog2 y" by (simp_all add: Ey_def max_def split: if_splits)
    have "rnd x \<le> 2 powi (Ex + 1)" using rnd_upper [OF assms(1)] by (simp add: Ex_def)
    also have "\<dots> \<le> 2 powi Ey" using lt by (rule power_int_increasing) simp
    also have "\<dots> \<le> rnd y" using rnd_lower [OF py ey(2)] by (simp add: ey(1))
    finally show ?thesis .
  qed
qed

lemma to_float_mono:
  assumes "x \<le> y"
  shows "to_float x \<le> to_float y"
proof -
  consider "y < 0" | "x \<le> 0" "0 \<le> y" | "0 < x" using assms by linarith
  then show ?thesis
  proof cases
    case 1
    with assms have "0 < - y" "- y \<le> - x" by simp_all
    from rnd_mono [OF this] 1 assms show ?thesis by (simp add: to_float_def)
  next
    case 2
    have a: "to_float x \<le> 0"
      using 2(1) rnd_nonneg [of "- x"] by (simp add: to_float_def)
    have b: "0 \<le> to_float y"
      using 2(2) rnd_nonneg [of y] by (simp add: to_float_def)
    from a b show ?thesis by simp
  next
    case 3
    from rnd_mono [OF 3 assms] 3 assms show ?thesis by (simp add: to_float_def)
  qed
qed

lemma to_float_binade:
  assumes "- 1022 \<le> e" and "2 powi e \<le> x" and "x < 2 powi (e + 1)"
  shows "to_float x = of_int (round_even (x / 2 powi (e - 52))) * 2 powi (e - 52)"
proof -
  have "0 < x" using assms(2) zero_less_power_int [of "2::real" e] by linarith
  then show ?thesis by (simp add: to_float_def rnd_binade [OF assms])
qed


lemma to_float_1 [simp]: "to_float 1 = 1"
  using to_float_binade [of 0 1] by (simp add: round_even_def)

lemma example_values:
  "to_float 6599.95 = 7256721767740211 / 2 ^ 40"
  "to_float 6600.05 = 7256831718902989 / 2 ^ 40"
  "to_float 0.0001 = 7378697629483821 / 2 ^ 66"
  "to_float (3 / 4) = 3 / 4"
proof -
  show "to_float 6599.95 = 7256721767740211 / 2 ^ 40"
    using to_float_binade [of 12 "6599.95"] by (simp add: round_even_def)
  show "to_float 6600.05 = 7256831718902989 / 2 ^ 40"
    using to_float_binade [of 12 "6600.05"] by (simp add: round_even_def)
  show "to_float 0.0001 = 7378697629483821 / 2 ^ 66"
    using to_float_binade [of "- 14" "0.0001"] by (simp add: round_even_def)
  show "to_float (3 / 4) = 3 / 4"
    using to_float_binade [of "- 1" "3 / 4"] by (simp add: round_even_def)
qed

section \<open>Properties of the simulation loop\<close>

subsection \<open>One iteration\<close>

lemmas log_defs = emit_def log_protected_position_def log_debris_positions_def
  log_iteration_def log_reward_action_def log_bad_action_def

lemma poll_frame:
  "curr_time (poll p it s) = curr_time s \<and> end_time (poll p it s) = end_time s \<and>
   start_time (poll p it s) = start_time s \<and> print_out (poll p it s) = print_out s \<and>
   update_r_p_step (poll p it s) = update_r_p_step s \<and> vis (poll p it s) = vis s \<and>
   time_arr (poll p it s) = time_arr s \<and> prob_arr (poll p it s) = prob_arr s \<and>
   fuel_cons_arr (poll p it s) = fuel_cons_arr s \<and> reward_arr (poll p it s) = reward_arr s"
  by (simp add: poll_def Let_def log_defs split: option.splits)

lemma poll_trace:
  "trace (poll p it s) = trace s @
     [Env_call Get_state, Agent_call (get_state p (env s)), Env_call Get_reward,
      Env_call (Act (fst (agent_get_action p (get_state p (env s)) (agent s))))] @
     (case fst (act p (fst (agent_get_action p (get_state p (env s)) (agent s))) (env s)) of
        None \<Rightarrow> []
      | Some m \<Rightarrow> if m = [] then [] else
          [Log WARNING (Bad_action (dVx (fst (agent_get_action p (get_state p (env s)) (agent s))))
               (dVy (fst (agent_get_action p (get_state p (env s)) (agent s))))
               (dVz (fst (agent_get_action p (get_state p (env s)) (agent s)))) m)]) @
     [Log INFO (Reward_action it (get_reward p (env s))
        (dVx (fst (agent_get_action p (get_state p (env s)) (agent s))))
        (dVy (fst (agent_get_action p (get_state p (env s)) (agent s))))
        (dVz (fst (agent_get_action p (get_state p (env s)) (agent s))))
        (maneuver_epoch (fst (agent_get_action p (get_state p (env s)) (agent s)))))]"
  by (simp add: poll_def Let_def log_defs split: option.splits)

lemma iterations_in_append [simp]:
  "iterations_in (xs @ ys) = iterations_in xs + iterations_in ys"
  by (simp add: iterations_in_def)

lemma iterations_in_poll: "iterations_in (trace (poll p it s)) = iterations_in (trace s)"
  by (simp add: poll_trace) (simp add: iterations_in_def is_propagate_def split: option.splits)

lemma decide_and_log_frame:
  "curr_time (decide_and_log p it s) = curr_time s \<and>
   end_time (decide_and_log p it s) = end_time s \<and>
   start_time (decide_and_log p it s) = start_time s \<and>
   print_out (decide_and_log p it s) = print_out s \<and>
   update_r_p_step (decide_and_log p it s) = update_r_p_step s \<and>
   vis (decide_and_log p it s) = vis s \<and>
   time_arr (decide_and_log p it s) = time_arr s \<and>
   prob_arr (decide_and_log p it s) = prob_arr s \<and>
   fuel_cons_arr (decide_and_log p it s) = fuel_cons_arr s \<and>
   reward_arr (decide_and_log p it s) = reward_arr s"
  by (simp add: decide_and_log_def Let_def log_defs poll_frame)

lemma iterations_in_map_debris [simp]:
  "iterations_in (map (\<lambda>i. Log INFO (Position_debris i t)) xs) = 0"
  by (induction xs) (simp_all add: iterations_in_def is_propagate_def)

lemma decide_and_log_iterations:
  "iterations_in (trace (decide_and_log p it s)) = iterations_in (trace s) + 1"
  by (simp add: decide_and_log_def Let_def log_defs iterations_in_poll)
     (simp add: iterations_in_def is_propagate_def)

lemma can_plot_decide_and_log: "can_plot (decide_and_log p it s) = can_plot s"
  by (simp add: can_plot_def decide_and_log_frame)

lemma plot_step_ok:
  assumes "can_plot s"
  shows "\<exists>s'. plot_step p it s = Inr s' \<and> can_plot s' \<and> curr_time s' = curr_time s \<and>
     end_time s' = end_time s \<and> update_r_p_step s' = update_r_p_step s \<and>
     env s' = env s \<and> agent s' = agent s \<and> print_out s' = print_out s \<and>
     start_time s' = start_time s \<and>
     iterations_in (trace s') = iterations_in (trace s)"
  using assms
  by (auto simp: can_plot_def plot_step_def Let_def emit_def iterations_in_def is_propagate_def
      split: option.splits)

lemma loop_body_ok:
  assumes "\<not> visualize \<or> can_plot s"
  shows "\<exists>s'. loop_body p step visualize it s = Inr s' \<and>
     curr_time s' = float_add (curr_time s) step \<and> end_time s' = end_time s \<and>
     start_time s' = start_time s \<and> print_out s' = print_out s \<and>
     update_r_p_step s' = update_r_p_step s \<and>
     (\<not> visualize \<or> can_plot s') \<and>
     iterations_in (trace s') = iterations_in (trace s) + 1"
proof (cases visualize)
  case False
  then show ?thesis
    by (simp add: loop_body_def Let_def decide_and_log_frame decide_and_log_iterations)
next
  case True
  with assms have "can_plot (decide_and_log p it s)" by (simp add: can_plot_decide_and_log)
  from plot_step_ok [OF this, of p it] obtain s5 where
    s5: "plot_step p it (decide_and_log p it s) = Inr s5" "can_plot s5"
      "curr_time s5 = curr_time (decide_and_log p it s)"
      "end_time s5 = end_time (decide_and_log p it s)"
      "update_r_p_step s5 = update_r_p_step (decide_and_log p it s)"
      "print_out s5 = print_out (decide_and_log p it s)"
      "start_time s5 = start_time (decide_and_log p it s)"
      "iterations_in (trace s5) = iterations_in (trace (decide_and_log p it s))"
    by blast
  with True show ?thesis
    by (simp add: loop_body_def Let_def decide_and_log_frame decide_and_log_iterations can_plot_def)
qed

subsection \<open>The loop and the run\<close>

lemma run_loop_exit:
  "end_time s < curr_time s \<Longrightarrow> run_loop p step visualize it s = Some (Inr (s, it))"
  by (subst run_loop.simps) simp

lemma run_loop_count:
  "\<not> visualize \<or> can_plot s \<Longrightarrow> \<forall>k<n. clock (curr_time s) step k \<le> end_time s \<Longrightarrow>
   end_time s < clock (curr_time s) step n \<Longrightarrow>
   \<exists>s'. run_loop p step visualize it s = Some (Inr (s', it + n)) \<and>
     iterations_in (trace s') = iterations_in (trace s) + n \<and>
     end_time s' < curr_time s' \<and> end_time s' = end_time s \<and>
     start_time s' = start_time s \<and> print_out s' = print_out s \<and>
     curr_time s' = clock (curr_time s) step n"
proof (induction n arbitrary: s it)
  case 0
  then have "end_time s < curr_time s" by simp
  then show ?case by (simp add: run_loop_exit)
next
  case (Suc m)
  from Suc.prems(2) have "clock (curr_time s) step 0 \<le> end_time s" by blast
  then have inside: "curr_time s \<le> end_time s" by simp
  from loop_body_ok [OF Suc.prems(1), of p step it] obtain s1 where
    s1: "loop_body p step visualize it s = Inr s1" "curr_time s1 = float_add (curr_time s) step"
      "end_time s1 = end_time s" "start_time s1 = start_time s" "print_out s1 = print_out s"
      "\<not> visualize \<or> can_plot s1"
      "iterations_in (trace s1) = iterations_in (trace s) + 1"
    by blast
  have a: "\<forall>k<m. clock (curr_time s1) step k \<le> end_time s1"
  proof (intro allI impI)
    fix k
    assume "k < m"
    then have "Suc k < Suc m" by simp
    with Suc.prems(2) have "clock (curr_time s) step (Suc k) \<le> end_time s" by blast
    then show "clock (curr_time s1) step k \<le> end_time s1" by (simp add: s1)
  qed
  have b: "end_time s1 < clock (curr_time s1) step m" using Suc.prems(3) by (simp add: s1)
  from Suc.IH [OF s1(6) a b, of "it + 1"] obtain s' where
    s': "run_loop p step visualize (it + 1) s1 = Some (Inr (s', it + 1 + m))"
      "iterations_in (trace s') = iterations_in (trace s1) + m"
      "end_time s' < curr_time s'" "end_time s' = end_time s1"
      "start_time s' = start_time s1" "print_out s' = print_out s1"
      "curr_time s' = clock (curr_time s1) step m"
    by blast
  have "run_loop p step visualize it s = run_loop p step visualize (it + 1) s1"
    using inside s1(1) by (subst run_loop.simps) simp
  with s' s1 show ?case by simp
qed

lemma run_loop_diverges:
  assumes "run_loop p step visualize it s = Some y"
  shows "\<not> ((\<forall>k. clock (curr_time s) step k \<le> end_time s) \<and> (\<not> visualize \<or> can_plot s))"
  using assms
proof (induction p step visualize it s y rule: run_loop.raw_induct [rotated 1, consumes 1, case_names step])
  case (step f p step visualize it s y)
  show ?case
  proof
    assume a: "(\<forall>k. clock (curr_time s) step k \<le> end_time s) \<and> (\<not> visualize \<or> can_plot s)"
    then have nr: "\<not> visualize \<or> can_plot s" by simp
    from a have "clock (curr_time s) step 0 \<le> end_time s" by blast
    then have inside: "curr_time s \<le> end_time s" by simp
    from loop_body_ok [OF nr, of p step it] obtain s1 where
      s1: "loop_body p step visualize it s = Inr s1" "curr_time s1 = float_add (curr_time s) step"
        "end_time s1 = end_time s" "\<not> visualize \<or> can_plot s1"
      by blast
    with inside step(2) have "f p step visualize (it + 1) s1 = Some y" by simp
    from step(1) [OF this] s1(4)
    obtain k where "\<not> clock (curr_time s1) step k \<le> end_time s1" by blast
    then have "\<not> clock (curr_time s) step (Suc k) \<le> end_time s" by (simp add: s1)
    with a show False by blast
  qed
qed

lemma first_past_end:
  assumes "e < clock c step n"
  shows "\<exists>m. e < clock c step m \<and> (\<forall>k<m. clock c step k \<le> e)"
proof -
  from assms have "\<exists>n. e < clock c step n" by blast
  then obtain m where "e < clock c step m" "\<forall>k<m. \<not> e < clock c step k"
    using exists_least_iff [of "\<lambda>n. e < clock c step n"] by blast
  then show ?thesis by (auto simp: not_less)
qed

lemma iterations_in_map_print [simp]:
  "iterations_in (map (\<lambda>i. Print (Debris_object i)) xs) = 0"
  by (induction xs) (simp_all add: iterations_in_def is_propagate_def)

lemma before_loop_frame:
  "curr_time (before_loop p step visualize s) = curr_time s \<and>
   end_time (before_loop p step visualize s) = end_time s \<and>
   start_time (before_loop p step visualize s) = start_time s \<and>
   print_out (before_loop p step visualize s) = print_out s \<and>
   update_r_p_step (before_loop p step visualize s) = update_r_p_step s \<and>
   agent (before_loop p step visualize s) = agent s \<and>
   env (before_loop p step visualize s) = env s \<and>
   iterations_in (trace (before_loop p step visualize s)) = iterations_in (trace s)"
  by (simp add: before_loop_def Let_def emit_def)
     (simp add: iterations_in_def is_propagate_def)

lemma before_loop_can_plot:
  "step_ok visualize s \<Longrightarrow>
   \<not> visualize \<or> can_plot (before_loop p step visualize s)"
  by (auto simp: step_ok_def before_loop_def Let_def emit_def can_plot_def split: option.splits)

lemma after_loop_eq:
  "after_loop p s =
     (get_reward p (env s),
      s\<lparr>trace := trace s @ Log INFO (Position_protected (curr_time s)) #
          (if print_out s then
             [Env_call Get_collision_probability, Env_call Get_reward,
              Env_call Get_fuel_consumption, Env_call Get_trajectory_deviation,
              Print (Simulation_ended (get_collision_probability p (env s))
                       (get_reward p (env s)) (get_fuel_consumption p (env s))
                       (get_trajectory_deviation p (env s)))]
           else []) @ [Env_call Get_reward]\<rparr>)"
  by (simp add: after_loop_def Let_def log_defs)

lemma after_loop_iterations:
  "iterations_in (trace (snd (after_loop p s))) = iterations_in (trace s)"
  by (simp add: after_loop_eq) (simp add: iterations_in_def is_propagate_def)

lemma run_returns:
  assumes "step_ok visualize s"
    and "\<forall>k<n. clock (curr_time s) step k \<le> end_time s"
    and "end_time s < clock (curr_time s) step n"
  shows "\<exists>s3. run_loop p step visualize 0 (before_loop p step visualize s) = Some (Inr (s3, n)) \<and>
     run p step visualize s = Some (Inr (after_loop p s3)) \<and>
     end_time s3 < curr_time s3 \<and> end_time s3 = end_time s \<and> print_out s3 = print_out s \<and>
     curr_time s3 = clock (curr_time s) step n \<and>
     iterations_in (trace s3) = iterations_in (trace s) + n"
proof -
  let ?b = "before_loop p step visualize s"
  have nr: "\<not> visualize \<or> can_plot ?b" using assms(1) by (rule before_loop_can_plot)
  have a: "\<forall>k<n. clock (curr_time ?b) step k \<le> end_time ?b"
    using assms(2) by (simp add: before_loop_frame)
  have b: "end_time ?b < clock (curr_time ?b) step n"
    using assms(3) by (simp add: before_loop_frame)
  from run_loop_count [OF nr a b, of p 0] obtain s3 where
    s3: "run_loop p step visualize 0 ?b = Some (Inr (s3, 0 + n))"
      "iterations_in (trace s3) = iterations_in (trace ?b) + n"
      "end_time s3 < curr_time s3" "end_time s3 = end_time ?b" "print_out s3 = print_out ?b"
      "curr_time s3 = clock (curr_time ?b) step n"
    by blast
  then show ?thesis by (simp add: run_def before_loop_frame)
qed

lemma run_count:
  assumes "step_ok visualize s"
    and "\<forall>k<n. clock (curr_time s) step k \<le> end_time s"
    and "end_time s < clock (curr_time s) step n"
  shows "\<exists>r s'. run p step visualize s = Some (Inr (r, s')) \<and>
     iterations_in (trace s') = iterations_in (trace s) + n \<and>
     end_time s' < curr_time s' \<and> curr_time s' = clock (curr_time s) step n"
proof -
  from run_returns [OF assms, of p] obtain s3 where
    s3: "run p step visualize s = Some (Inr (after_loop p s3))"
      "end_time s3 < curr_time s3"
      "curr_time s3 = clock (curr_time s) step n"
      "iterations_in (trace s3) = iterations_in (trace s) + n"
    by blast
  have "run p step visualize s = Some (Inr (fst (after_loop p s3), snd (after_loop p s3)))"
    using s3(1) by simp
  moreover have "iterations_in (trace (snd (after_loop p s3))) = iterations_in (trace s) + n"
    using s3(4) by (simp add: after_loop_iterations)
  moreover have "end_time (snd (after_loop p s3)) < curr_time (snd (after_loop p s3))"
    "curr_time (snd (after_loop p s3)) = clock (curr_time s) step n"
    using s3(2,3) by (simp_all add: after_loop_eq)
  ultimately show ?thesis by blast
qed

lemma run_returns_when_clock_passes:
  assumes "step_ok visualize s" and "end_time s < clock (curr_time s) step n"
  shows "\<exists>r s'. run p step visualize s = Some (Inr (r, s'))"
proof -
  from first_past_end [OF assms(2)] obtain m where
    m: "end_time s < clock (curr_time s) step m" "\<forall>k<m. clock (curr_time s) step k \<le> end_time s"
    by blast
  from run_count [OF assms(1) m(2) m(1), of p] show ?thesis by blast
qed

lemma run_loop_never_raises_unvisualized:
  assumes "run_loop p step visualize it s = Some y"
  shows "\<not> visualize \<longrightarrow> (\<forall>ex. y \<noteq> Inl ex)"
  using assms
proof (induction p step visualize it s y
    rule: run_loop.raw_induct [rotated 1, consumes 1, case_names step])
  case (step f p step visualize it s y)
  show ?case
  proof
    assume nv: "\<not> visualize"
    show "\<forall>ex. y \<noteq> Inl ex"
    proof (cases "curr_time s \<le> end_time s")
      case True
      from nv have "\<not> visualize \<or> can_plot s" by simp
      from loop_body_ok [OF this, of p step it] obtain s1 where
        s1: "loop_body p step visualize it s = Inr s1" by blast
      with True step(2) have "f p step visualize (it + 1) s1 = Some y" by simp
      from step(1) [OF this] nv show ?thesis by simp
    next
      case False
      with step(2) show ?thesis by auto
    qed
  qed
qed

lemma plot_step_no_update_step:
  "vis s \<noteq> None \<Longrightarrow> update_r_p_step s = None \<Longrightarrow>
   plot_step p it s =
     Inl (TypeError, emit [Vis Plot_protected, Vis Plot_debris, Vis Plot_earth,
                           Env_call Get_fuel_consumption, Env_call Get_trajectory_deviation] s)"
  by (auto simp: plot_step_def Let_def emit_def)

lemma plot_step_zero_update_step:
  "vis s \<noteq> None \<Longrightarrow> update_r_p_step s = Some 0 \<Longrightarrow>
   plot_step p it s =
     Inl (ZeroDivisionError, emit [Vis Plot_protected, Vis Plot_debris, Vis Plot_earth,
                           Env_call Get_fuel_consumption, Env_call Get_trajectory_deviation] s)"
  by (auto simp: plot_step_def Let_def emit_def)

lemma before_loop_vis: "vis (before_loop p step True s) \<noteq> None"
  by (simp add: before_loop_def Let_def emit_def)

lemma first_iteration_raises:
  assumes "curr_time s \<le> end_time s"
    and "update_r_p_step s = None \<and> ex = TypeError \<or>
         update_r_p_step s = Some 0 \<and> ex = ZeroDivisionError"
  shows "\<exists>s'. run p step True s = Some (Inl (ex, s')) \<and>
     iterations_in (trace s') = iterations_in (trace s) + 1"
proof -
  let ?b = "before_loop p step True s"
  let ?d = "decide_and_log p 0 ?b"
  let ?e = "emit [Vis Plot_protected, Vis Plot_debris, Vis Plot_earth,
                  Env_call Get_fuel_consumption, Env_call Get_trajectory_deviation] ?d"
  have v: "vis ?d \<noteq> None" by (simp add: decide_and_log_frame before_loop_vis)
  have u: "update_r_p_step ?d = update_r_p_step s"
    by (simp add: decide_and_log_frame before_loop_frame)
  have "plot_step p 0 ?d = Inl (ex, ?e)"
    using assms(2) v u plot_step_no_update_step [of ?d p 0] plot_step_zero_update_step [of ?d p 0]
    by auto
  then have body: "loop_body p step True 0 ?b = Inl (ex, ?e)"
    by (simp add: loop_body_def Let_def)
  have inside: "curr_time ?b \<le> end_time ?b" using assms(1) by (simp add: before_loop_frame)
  have "run_loop p step True 0 ?b = Some (Inl (ex, ?e))"
    using inside body by (subst run_loop.simps) simp
  then have "run p step True s = Some (Inl (ex, ?e))" by (simp add: run_def)
  moreover have "iterations_in (trace ?e) = iterations_in (trace s) + 1"
    by (simp add: emit_def decide_and_log_iterations before_loop_frame)
       (simp add: iterations_in_def is_propagate_def)
  ultimately show ?thesis by blast
qed

lemma run_loop_exits_past_end:
  assumes "run_loop p step visualize it s = Some y"
  shows "\<forall>s' k. y = Inr (s', k) \<longrightarrow> end_time s' < curr_time s'"
  using assms
proof (induction p step visualize it s y
    rule: run_loop.raw_induct [rotated 1, consumes 1, case_names step])
  case (step f p step visualize it s y)
  show ?case
  proof (cases "curr_time s \<le> end_time s")
    case True
    show ?thesis
    proof (cases "loop_body p step visualize it s")
      case (Inl ex)
      with True step(2) show ?thesis by auto
    next
      case (Inr s1)
      with True step(2) have "f p step visualize (it + 1) s1 = Some y" by simp
      from step(1) [OF this] show ?thesis .
    qed
  next
    case False
    with step(2) show ?thesis by auto
  qed
qed

lemma run_diverges:
  assumes "\<forall>k. clock (curr_time s) step k \<le> end_time s" and "step_ok visualize s"
  shows "run p step visualize s = None"
proof -
  let ?b = "before_loop p step visualize s"
  have nr: "\<not> visualize \<or> can_plot ?b" using assms(2) by (rule before_loop_can_plot)
  have inside: "\<forall>k. clock (curr_time ?b) step k \<le> end_time ?b"
    using assms(1) by (simp add: before_loop_frame)
  have "run_loop p step visualize 0 ?b = None"
  proof (cases "run_loop p step visualize 0 ?b")
    case None
    then show ?thesis .
  next
    case (Some y)
    from run_loop_diverges [OF this] inside nr show ?thesis by blast
  qed
  then show ?thesis by (simp add: run_def)
qed

subsection \<open>The values of the clock\<close>

lemma clock_step_not_positive:
  assumes "step \<le> 0" and "to_float e = e"
  shows "c \<le> e \<Longrightarrow> clock c step k \<le> e"
proof (induction k arbitrary: c)
  case 0
  then show ?case by simp
next
  case (Suc k)
  from Suc.prems assms(1) have "c + step \<le> e" by simp
  then have "to_float (c + step) \<le> to_float e" by (rule to_float_mono)
  then have "float_add c step \<le> e" by (simp add: float_add_def assms(2))
  from Suc.IH [OF this] show ?case by simp
qed




subsection \<open>Some values of the float clock\<close>

lemma to_float_small:
  "to_float 2 = 2" "to_float (3 / 2) = 3 / 2" "to_float (- 1) = - 1"
  "to_float 6600 = 6600" "to_float 6601 = 6601" "to_float 6602 = 6602"
  "to_float (1 / 4) = 1 / 4"
proof -
  show "to_float 2 = 2"
    using to_float_binade [of 1 2] by (simp add: round_even_def)
  show "to_float (3 / 2) = 3 / 2"
    using to_float_binade [of 0 "3 / 2"] by (simp add: round_even_def)
  show "to_float (- 1) = - 1"
    using rnd_binade [of 0 1] by (simp add: to_float_def round_even_def)
  show "to_float 6600 = 6600"
    using to_float_binade [of 12 6600] by (simp add: round_even_def)
  show "to_float 6601 = 6601"
    using to_float_binade [of 12 6601] by (simp add: round_even_def)
  show "to_float 6602 = 6602"
    using to_float_binade [of 12 6602] by (simp add: round_even_def)
  show "to_float (1 / 4) = 1 / 4"
    using to_float_binade [of "- 2" "1 / 4"] by (simp add: round_even_def)
qed


lemma float_add_small:
  "float_add 0 1 = 1" "float_add 1 1 = 2" "float_add 0 (- 1) = - 1"
  "float_add 0 (3 / 4) = 3 / 4" "float_add (3 / 4) (3 / 4) = 3 / 2"
  "float_add 6600 1 = 6601" "float_add 6601 1 = 6602"
  by (simp_all add: float_add_def to_float_small example_values)

lemma all_less_2: "(\<forall>k<2. P k) = (P 0 \<and> P (1::nat))"
  by (auto simp: numeral_2_eq_2 less_Suc_eq)



subsection \<open>How many iterations\<close>




subsection \<open>Construction and the order of the epochs\<close>

text \<open>
  C7, as the code has it. \<open>__init__\<close> checks nothing: whenever \<open>init_params\<close> has the two
  epochs, in whatever order, it returns the simulator, and it has no step to look at.
  When the end time is before the current time, \<open>run\<close> executes no iteration of the loop
  and returns. With a step that is not positive, a clock that has not passed the end
  time (a float) and no interruption by the plotting part, \<open>run\<close> does not return: the
  float clock never increases.
\<close>

theorem construction_does_not_validate:
  "(init_params p e ''start_time'' = Some t0 \<and> init_params p e ''end_time'' = Some t1 \<longrightarrow>
      Simulator_init p ag e u po =
        Inr \<lparr>agent = ag, env = e, start_time = t0, end_time = t1, curr_time = t0,
             print_out = po, update_r_p_step = u, vis = None,
             time_arr = None, prob_arr = None, fuel_cons_arr = None,
             reward_arr = None, trace = []\<rparr>) \<and>
   (end_time s < curr_time s \<longrightarrow>
      (\<exists>r s'. run p step visualize s = Some (Inr (r, s')) \<and>
         iterations_in (trace s') = iterations_in (trace s))) \<and>
   (step \<le> 0 \<and> curr_time s \<le> end_time s \<and> to_float (end_time s) = end_time s \<and>
    step_ok visualize s \<longrightarrow>
      run p step visualize s = None)"
proof (intro conjI impI)
  assume "init_params p e ''start_time'' = Some t0 \<and> init_params p e ''end_time'' = Some t1"
  then show "Simulator_init p ag e u po =
        Inr \<lparr>agent = ag, env = e, start_time = t0, end_time = t1, curr_time = t0,
             print_out = po, update_r_p_step = u, vis = None,
             time_arr = None, prob_arr = None, fuel_cons_arr = None,
             reward_arr = None, trace = []\<rparr>"
    by (simp add: Simulator_init_def)
next
  assume past: "end_time s < curr_time s"
  let ?b = "before_loop p step visualize s"
  from past have "end_time ?b < curr_time ?b" by (simp add: before_loop_frame)
  then have "run_loop p step visualize 0 ?b = Some (Inr (?b, 0))" by (rule run_loop_exit)
  then have "run p step visualize s = Some (Inr (fst (after_loop p ?b), snd (after_loop p ?b)))"
    by (simp add: run_def)
  moreover have "iterations_in (trace (snd (after_loop p ?b))) = iterations_in (trace s)"
    by (simp add: after_loop_iterations before_loop_frame)
  ultimately show "\<exists>r s'. run p step visualize s = Some (Inr (r, s')) \<and>
         iterations_in (trace s') = iterations_in (trace s)"
    by blast
next
  assume a: "step \<le> 0 \<and> curr_time s \<le> end_time s \<and> to_float (end_time s) = end_time s \<and>
    step_ok visualize s"
  then have "\<forall>k. clock (curr_time s) step k \<le> end_time s"
    by (simp add: clock_step_not_positive)
  with a show "run p step visualize s = None" by (simp add: run_diverges)
qed

theorem construction_does_not_validate_witness:
  "init_params toy_ports (toy 1 0 0 None) ''start_time'' = Some 1 \<and>
   init_params toy_ports (toy 1 0 0 None) ''end_time'' = Some 0 \<and>
   Simulator_init toy_ports example_table (toy 1 0 0 None) None False =
     Inr (toy_sim 1 0 0 None None) \<and>
   end_time (toy_sim 1 0 0 None None) < curr_time (toy_sim 1 0 0 None None) \<and>
   (\<exists>r s'. run toy_ports 1 False (toy_sim 1 0 0 None None) = Some (Inr (r, s')) \<and>
      iterations_in (trace s') = 0) \<and>
   (- 1 :: real) \<le> 0 \<and>
   curr_time (toy_sim 0 1 0 None None) \<le> end_time (toy_sim 0 1 0 None None) \<and>
   to_float (end_time (toy_sim 0 1 0 None None)) = end_time (toy_sim 0 1 0 None None) \<and>
   step_ok False (toy_sim 0 1 0 None None) \<and>
   run toy_ports (- 1) False (toy_sim 0 1 0 None None) = None"
proof -
  have k0: "init_params toy_ports (toy 1 0 0 None) ''start_time'' = Some 1"
    and k1: "init_params toy_ports (toy 1 0 0 None) ''end_time'' = Some 0"
    by (simp_all add: toy_ports_def toy_def)
  have past: "end_time (toy_sim 1 0 0 None None) < curr_time (toy_sim 1 0 0 None None)"
    and t: "iterations_in (trace (toy_sim 1 0 0 None None)) = 0"
    by (simp_all add: toy_sim_def iterations_in_def)
  have neg: "(- 1 :: real) \<le> 0" by simp
  have le: "curr_time (toy_sim 0 1 0 None None) \<le> end_time (toy_sim 0 1 0 None None)"
    by (simp add: toy_sim_def)
  have fe: "to_float (end_time (toy_sim 0 1 0 None None)) = end_time (toy_sim 0 1 0 None None)"
    by (simp add: toy_sim_def)
  have ok: "step_ok False (toy_sim 0 1 0 None None)" by (simp add: step_ok_def)
  note a = construction_does_not_validate
    [where p = toy_ports and e = "toy 1 0 0 None" and ?t0.0 = 1 and ?t1.0 = 0
       and ag = example_table and u = None and po = False
       and s = "toy_sim 1 0 0 None None" and step = 1 and visualize = False]
  note b = construction_does_not_validate
    [where p = toy_ports and e = "toy 1 0 0 None" and ?t0.0 = 1 and ?t1.0 = 0
       and ag = example_table and u = None and po = False
       and s = "toy_sim 0 1 0 None None" and step = "- 1" and visualize = False]
  from a k0 k1 have i: "Simulator_init toy_ports example_table (toy 1 0 0 None) None False =
     Inr (toy_sim 1 0 0 None None)"
    by (simp add: toy_sim_def)
  from a past have "\<exists>r s'. run toy_ports 1 False (toy_sim 1 0 0 None None) = Some (Inr (r, s')) \<and>
      iterations_in (trace s') = iterations_in (trace (toy_sim 1 0 0 None None))"
    by blast
  then have r: "\<exists>r s'. run toy_ports 1 False (toy_sim 1 0 0 None None) = Some (Inr (r, s')) \<and>
      iterations_in (trace s') = 0"
    by (simp only: t)
  from b neg le fe ok have d: "run toy_ports (- 1) False (toy_sim 0 1 0 None None) = None"
    by blast
  from k0 k1 i past r neg le fe ok d show ?thesis by blast
qed

text \<open>
  The claim as written fails: on an environment whose end epoch 0 is before its start
  epoch 1, construction returns the simulator.
\<close>

theorem construction_accepts_end_before_start:
  "Simulator_init toy_ports example_table (toy 1 0 0 None) None False =
     Inr (toy_sim 1 0 0 None None) \<and>
   end_time (toy_sim 1 0 0 None None) < start_time (toy_sim 1 0 0 None None)"
  by (simp add: Simulator_init_def toy_ports_def toy_def toy_sim_def)

subsection \<open>After the loop\<close>

text \<open>
  C8. When \<open>run\<close> returns, the loop has exited with the clock past the end time; after
  it \<open>run\<close> has written one record of the protected object's position (and, when
  \<open>print_out\<close> is set, read the environment for the printed summary), and the value it
  returns is what the environment's \<open>get_reward\<close> gives at the end: \<open>run\<close> leaves the
  environment as the loop left it. With no interruption by the plotting part, \<open>run\<close>
  does return whenever some value of the float clock is past the end time.
\<close>

theorem run_returns_environment_reward:
  "(run p step visualize s = Some (Inr (r, s')) \<longrightarrow>
      r = get_reward p (env s') \<and>
      (\<exists>s3 k. run_loop p step visualize 0 (before_loop p step visualize s) = Some (Inr (s3, k)) \<and>
         end_time s3 < curr_time s3 \<and>
         env s' = env s3 \<and>
         trace s' = trace s3 @ Log INFO (Position_protected (curr_time s3)) #
           (if print_out s3 then
              [Env_call Get_collision_probability, Env_call Get_reward,
               Env_call Get_fuel_consumption, Env_call Get_trajectory_deviation,
               Print (Simulation_ended (get_collision_probability p (env s3))
                        (get_reward p (env s3)) (get_fuel_consumption p (env s3))
                        (get_trajectory_deviation p (env s3)))]
            else []) @ [Env_call Get_reward] \<and>
         protected_logs (trace s') = protected_logs (trace s3) + 1)) \<and>
   (step_ok visualize s \<and> end_time s < clock (curr_time s) step n \<longrightarrow>
      (\<exists>r s'. run p step visualize s = Some (Inr (r, s'))))"
proof (intro conjI impI)
  assume r: "run p step visualize s = Some (Inr (r, s'))"
  then obtain s3 k where
    l: "run_loop p step visualize 0 (before_loop p step visualize s) = Some (Inr (s3, k))"
    and a: "after_loop p s3 = (r, s')"
    by (auto simp: run_def split: option.splits sum.splits prod.splits)
  have out: "end_time s3 < curr_time s3"
    using run_loop_exits_past_end [OF l] by simp
  show "r = get_reward p (env s')" using a by (auto simp: after_loop_eq)
  show "\<exists>s3 k. run_loop p step visualize 0 (before_loop p step visualize s) = Some (Inr (s3, k)) \<and>
         end_time s3 < curr_time s3 \<and>
         env s' = env s3 \<and>
         trace s' = trace s3 @ Log INFO (Position_protected (curr_time s3)) #
           (if print_out s3 then
              [Env_call Get_collision_probability, Env_call Get_reward,
               Env_call Get_fuel_consumption, Env_call Get_trajectory_deviation,
               Print (Simulation_ended (get_collision_probability p (env s3))
                        (get_reward p (env s3)) (get_fuel_consumption p (env s3))
                        (get_trajectory_deviation p (env s3)))]
            else []) @ [Env_call Get_reward] \<and>
         protected_logs (trace s') = protected_logs (trace s3) + 1"
    using l a out
    by (auto simp: after_loop_eq protected_logs_def is_protected_log_def)
next
  assume h: "step_ok visualize s \<and> end_time s < clock (curr_time s) step n"
  then have "step_ok visualize s" "end_time s < clock (curr_time s) step n" by simp_all
  then show "\<exists>r s'. run p step visualize s = Some (Inr (r, s'))"
    by (rule run_returns_when_clock_passes)
qed

theorem run_returns_environment_reward_witness:
  "step_ok False (toy_sim 0 1 0 None None) \<and>
   end_time (toy_sim 0 1 0 None None) < clock (curr_time (toy_sim 0 1 0 None None)) 1 2 \<and>
   (\<exists>s'. run toy_ports 1 False (toy_sim 0 1 0 None None) = Some (Inr (- 1, s')))"
proof -
  let ?s = "toy_sim 0 1 0 None None"
  have pos: "end_time ?s < clock (curr_time ?s) 1 2"
    by (simp add: toy_sim_def numeral_2_eq_2 float_add_small)
  have ok: "step_ok False ?s" by (simp add: step_ok_def)
  from pos ok run_returns_environment_reward
    [where p = toy_ports and step = 1 and visualize = False and s = ?s and n = 2]
  obtain r s' where r: "run toy_ports 1 False ?s = Some (Inr (r, s'))" by blast
  from r run_returns_environment_reward
    [where p = toy_ports and step = 1 and visualize = False and s = ?s and r = r and s' = s']
  have "r = get_reward toy_ports (env s')" by blast
  then have "r = - 1" by (simp add: toy_ports_def)
  with r pos ok show ?thesis by blast
qed

subsection \<open>A visualized run and \<open>update_r_p_step\<close>\<close>

text \<open>
  C9. A visualized run whose clock has not passed the end time raises in its first
  iteration when \<open>update_r_p_step\<close> is \<open>None\<close> (\<open>TypeError\<close>) or \<open>0\<close>
  (\<open>ZeroDivisionError\<close>); with a non-zero integer it returns whenever some value of
  the float clock is past the end time. A run that is not visualized never raises,
  whatever \<open>update_r_p_step\<close> is, and returns under the same condition on the clock.
\<close>

theorem visualized_run_needs_update_step:
  "(curr_time s \<le> end_time s \<and> update_r_p_step s = None \<longrightarrow>
      (\<exists>s'. run p step True s = Some (Inl (TypeError, s')) \<and>
         iterations_in (trace s') = iterations_in (trace s) + 1)) \<and>
   (curr_time s \<le> end_time s \<and> update_r_p_step s = Some 0 \<longrightarrow>
      (\<exists>s'. run p step True s = Some (Inl (ZeroDivisionError, s')) \<and>
         iterations_in (trace s') = iterations_in (trace s) + 1)) \<and>
   (end_time s < clock (curr_time s) step n \<and>
    (\<exists>u. update_r_p_step s = Some u \<and> u \<noteq> 0) \<longrightarrow>
      (\<exists>r s'. run p step True s = Some (Inr (r, s')))) \<and>
   (\<forall>ex. run p step False s \<noteq> Some (Inl ex)) \<and>
   (end_time s < clock (curr_time s) step n \<longrightarrow>
      (\<exists>r s'. run p step False s = Some (Inr (r, s'))))"
proof -
  have a: "\<exists>s'. run p step True s = Some (Inl (TypeError, s')) \<and>
         iterations_in (trace s') = iterations_in (trace s) + 1"
    if "curr_time s \<le> end_time s \<and> update_r_p_step s = None"
    using that first_iteration_raises [of s TypeError p step] by simp
  have b: "\<exists>s'. run p step True s = Some (Inl (ZeroDivisionError, s')) \<and>
         iterations_in (trace s') = iterations_in (trace s) + 1"
    if "curr_time s \<le> end_time s \<and> update_r_p_step s = Some 0"
    using that first_iteration_raises [of s ZeroDivisionError p step] by simp
  have c: "\<exists>r s'. run p step True s = Some (Inr (r, s'))"
    if "end_time s < clock (curr_time s) step n \<and>
      (\<exists>u. update_r_p_step s = Some u \<and> u \<noteq> 0)"
  proof -
    from that have ok: "step_ok True s" by (auto simp: step_ok_def)
    from that have "end_time s < clock (curr_time s) step n" by simp
    with ok show ?thesis by (rule run_returns_when_clock_passes)
  qed
  have d: "run p step False s \<noteq> Some (Inl ex)" for ex
  proof
    assume r: "run p step False s = Some (Inl ex)"
    then have "run_loop p step False 0 (before_loop p step False s) = Some (Inl ex)"
      by (simp add: run_def split: option.splits sum.splits prod.splits)
    from run_loop_never_raises_unvisualized [OF this] show False by simp
  qed
  have e: "\<exists>r s'. run p step False s = Some (Inr (r, s'))"
    if "end_time s < clock (curr_time s) step n"
  proof -
    have ok: "step_ok False s" by (simp add: step_ok_def)
    from ok that show ?thesis by (rule run_returns_when_clock_passes)
  qed
  from a b c d e show ?thesis by blast
qed

theorem visualized_run_needs_update_step_witness:
  "curr_time (toy_sim 0 1 0 None None) \<le> end_time (toy_sim 0 1 0 None None) \<and>
   update_r_p_step (toy_sim 0 1 0 None None) = None \<and>
   (\<exists>s'. run toy_ports 1 True (toy_sim 0 1 0 None None) = Some (Inl (TypeError, s'))) \<and>
   curr_time (toy_sim 0 1 0 None (Some 0)) \<le> end_time (toy_sim 0 1 0 None (Some 0)) \<and>
   update_r_p_step (toy_sim 0 1 0 None (Some 0)) = Some 0 \<and>
   (\<exists>s'. run toy_ports 1 True (toy_sim 0 1 0 None (Some 0))
            = Some (Inl (ZeroDivisionError, s'))) \<and>
   end_time (toy_sim 0 1 0 None (Some 2)) < clock (curr_time (toy_sim 0 1 0 None (Some 2))) 1 2 \<and>
   update_r_p_step (toy_sim 0 1 0 None (Some 2)) = Some 2 \<and>
   (\<exists>r s'. run toy_ports 1 True (toy_sim 0 1 0 None (Some 2)) = Some (Inr (r, s'))) \<and>
   (\<exists>r s'. run toy_ports 1 False (toy_sim 0 1 0 None None) = Some (Inr (r, s')))"
proof -
  have le: "curr_time (toy_sim 0 1 0 None None) \<le> end_time (toy_sim 0 1 0 None None)"
    and un: "update_r_p_step (toy_sim 0 1 0 None None) = None"
    and le0: "curr_time (toy_sim 0 1 0 None (Some 0)) \<le> end_time (toy_sim 0 1 0 None (Some 0))"
    and u0: "update_r_p_step (toy_sim 0 1 0 None (Some 0)) = Some 0"
    and u2: "update_r_p_step (toy_sim 0 1 0 None (Some 2)) = Some 2"
    by (simp_all add: toy_sim_def)
  have pos: "end_time (toy_sim 0 1 0 None (Some 2))
      < clock (curr_time (toy_sim 0 1 0 None (Some 2))) 1 2"
    and pos': "end_time (toy_sim 0 1 0 None None) < clock (curr_time (toy_sim 0 1 0 None None)) 1 2"
    by (simp_all add: toy_sim_def numeral_2_eq_2 float_add_small)
  note a = visualized_run_needs_update_step
    [where p = toy_ports and step = 1 and s = "toy_sim 0 1 0 None None" and n = 2]
  note b = visualized_run_needs_update_step
    [where p = toy_ports and step = 1 and s = "toy_sim 0 1 0 None (Some 0)" and n = 2]
  note c = visualized_run_needs_update_step
    [where p = toy_ports and step = 1 and s = "toy_sim 0 1 0 None (Some 2)" and n = 2]
  from a le un have r1:
    "\<exists>s'. run toy_ports 1 True (toy_sim 0 1 0 None None) = Some (Inl (TypeError, s'))"
    by blast
  from b le0 u0 have r2:
    "\<exists>s'. run toy_ports 1 True (toy_sim 0 1 0 None (Some 0))
            = Some (Inl (ZeroDivisionError, s'))"
    by blast
  have "\<exists>u. update_r_p_step (toy_sim 0 1 0 None (Some 2)) = Some u \<and> u \<noteq> 0"
    using u2 by simp
  with c pos have r3:
    "\<exists>r s'. run toy_ports 1 True (toy_sim 0 1 0 None (Some 2)) = Some (Inr (r, s'))"
    by blast
  from a pos' have r4:
    "\<exists>r s'. run toy_ports 1 False (toy_sim 0 1 0 None None) = Some (Inr (r, s'))"
    by blast
  from le un r1 le0 u0 r2 pos u2 r3 r4 show ?thesis by blast
qed

subsection \<open>The decision check\<close>

lemma decide_and_log_not_due:
  assumes "\<not> due p s"
  shows "decide_and_log p it s =
     s\<lparr>env := propagated p s,
       trace := trace s @
         [Env_call (Propagate_forward (curr_time s) (update_r_p_step s)),
          Env_call Get_next_action] @ telemetry_at p it (curr_time s) (propagated p s)\<rparr>"
  using assms
  by (simp add: decide_and_log_def due_def propagated_def telemetry_at_def Let_def log_defs)

lemma decide_and_log_due:
  assumes "due p s"
  shows "trace (decide_and_log p it s) = trace s @
     [Env_call (Propagate_forward (curr_time s) (update_r_p_step s)),
      Env_call Get_next_action,
      Env_call Get_state, Agent_call (get_state p (propagated p s)), Env_call Get_reward,
      Env_call (Act (offered p s))] @
     (case fst (act p (offered p s) (propagated p s)) of
        None \<Rightarrow> []
      | Some m \<Rightarrow> if m = [] then [] else
          [Log WARNING (Bad_action (dVx (offered p s)) (dVy (offered p s))
             (dVz (offered p s)) m)]) @
     [Log INFO (Reward_action it (get_reward p (propagated p s))
        (dVx (offered p s)) (dVy (offered p s)) (dVz (offered p s))
        (maneuver_epoch (offered p s)))] @
     telemetry_at p it (curr_time s) (snd (act p (offered p s) (propagated p s)))"
  using assms
  by (simp add: decide_and_log_def due_def propagated_def offered_def telemetry_at_def
      Let_def poll_def log_defs split: option.splits)

lemma polls_telemetry: "e \<in> set (telemetry_at p it t x) \<Longrightarrow> \<not> polls e"
  by (auto simp: telemetry_at_def polls_def)

lemma filter_telemetry_at:
  "filter is_telemetry (telemetry_at p it t x) = telemetry_at p it t x"
  by (simp add: telemetry_at_def is_telemetry_def filter_map o_def)

lemma filter_telemetry_due:
  assumes "due p s"
  shows "\<exists>ds. trace (decide_and_log p it s) = trace s @ ds \<and>
     filter is_telemetry ds =
       telemetry_at p it (curr_time s) (snd (act p (offered p s) (propagated p s)))"
proof -
  let ?w = "case fst (act p (offered p s) (propagated p s)) of
        None \<Rightarrow> []
      | Some m \<Rightarrow> if m = [] then [] else
          [Log WARNING (Bad_action (dVx (offered p s)) (dVy (offered p s))
             (dVz (offered p s)) m)]"
  have w: "filter is_telemetry ?w = []"
    by (simp add: is_telemetry_def split: option.splits)
  let ?ds = "[Env_call (Propagate_forward (curr_time s) (update_r_p_step s)),
      Env_call Get_next_action,
      Env_call Get_state, Agent_call (get_state p (propagated p s)), Env_call Get_reward,
      Env_call (Act (offered p s))] @ ?w @
     [Log INFO (Reward_action it (get_reward p (propagated p s))
        (dVx (offered p s)) (dVy (offered p s)) (dVz (offered p s))
        (maneuver_epoch (offered p s)))] @
     telemetry_at p it (curr_time s) (snd (act p (offered p s) (propagated p s)))"
  have a: "trace (decide_and_log p it s) = trace s @ ?ds"
    using decide_and_log_due [OF assms, of it] by simp
  have "filter is_telemetry ?ds = filter is_telemetry ?w @
      filter is_telemetry
        (telemetry_at p it (curr_time s) (snd (act p (offered p s) (propagated p s))))"
    by (simp add: is_telemetry_def)
  then have b: "filter is_telemetry ?ds =
      telemetry_at p it (curr_time s) (snd (act p (offered p s) (propagated p s)))"
    by (simp only: w filter_telemetry_at append_Nil)
  from a b show ?thesis by blast
qed

lemma plot_step_trace:
  "\<exists>vs. trace (left_by (plot_step p it s)) = trace s @ vs \<and>
     (\<forall>e \<in> set vs. \<not> polls e \<and> \<not> is_telemetry e) \<and>
     agent (left_by (plot_step p it s)) = agent s \<and>
     env (left_by (plot_step p it s)) = env s"
  by (auto simp: plot_step_def left_by_def Let_def emit_def polls_def is_telemetry_def
      split: option.splits)

lemma loop_body_left:
  "\<exists>vs. trace (left_by (loop_body p step visualize it s)) =
          trace (decide_and_log p it s) @ vs \<and>
     (\<forall>e \<in> set vs. \<not> polls e \<and> \<not> is_telemetry e) \<and> (\<not> visualize \<longrightarrow> vs = []) \<and>
     agent (left_by (loop_body p step visualize it s)) = agent (decide_and_log p it s) \<and>
     env (left_by (loop_body p step visualize it s)) = env (decide_and_log p it s)"
proof (cases visualize)
  case False
  then show ?thesis by (simp add: loop_body_def left_by_def Let_def)
next
  case True
  from plot_step_trace [of p it "decide_and_log p it s"] obtain vs where
    vs: "trace (left_by (plot_step p it (decide_and_log p it s))) =
           trace (decide_and_log p it s) @ vs"
      "\<forall>e \<in> set vs. \<not> polls e \<and> \<not> is_telemetry e"
      "agent (left_by (plot_step p it (decide_and_log p it s))) = agent (decide_and_log p it s)"
      "env (left_by (plot_step p it (decide_and_log p it s))) = env (decide_and_log p it s)"
    by blast
  have "trace (left_by (loop_body p step visualize it s)) =
          trace (left_by (plot_step p it (decide_and_log p it s))) \<and>
        agent (left_by (loop_body p step visualize it s)) =
          agent (left_by (plot_step p it (decide_and_log p it s))) \<and>
        env (left_by (loop_body p step visualize it s)) =
          env (left_by (plot_step p it (decide_and_log p it s)))"
    using True by (simp add: loop_body_def left_by_def Let_def split: sum.splits)
  with vs True show ?thesis by auto
qed

lemma iteration_events_split:
  "\<exists>ds vs. trace (decide_and_log p it s) = trace s @ ds \<and>
     iteration_events p step visualize it s = ds @ vs \<and>
     trace (left_by (loop_body p step visualize it s)) = trace s @ ds @ vs \<and>
     (\<forall>e \<in> set vs. \<not> polls e) \<and> filter is_telemetry vs = [] \<and> (\<not> visualize \<longrightarrow> vs = [])"
proof -
  obtain ds where ds: "trace (decide_and_log p it s) = trace s @ ds"
    by (cases "due p s") (simp_all add: decide_and_log_due decide_and_log_not_due)
  from loop_body_left [of p step visualize it s] obtain vs where
    vs: "trace (left_by (loop_body p step visualize it s)) = trace (decide_and_log p it s) @ vs"
      "\<forall>e \<in> set vs. \<not> polls e \<and> \<not> is_telemetry e" "\<not> visualize \<longrightarrow> vs = []"
    by blast
  from vs(2) have f: "filter is_telemetry vs = []" by (simp add: filter_empty_conv)
  from ds vs have "iteration_events p step visualize it s = ds @ vs"
    by (simp add: iteration_events_def new_events_def)
  with ds vs f show ?thesis by auto
qed

text \<open>
  C3. In an iteration of the loop of \<open>run\<close>, \<open>act\<close> is called only when the current time
  has reached the epoch that \<open>get_next_action\<close> returns, and then it is called with the
  agent's action. When the current time is before that epoch, the iteration makes no
  call of \<open>get_state\<close>, of the agent's \<open>get_action\<close> or of \<open>act\<close> and leaves the agent
  alone: after \<open>propagate_forward\<close> and \<open>get_next_action\<close> the next thing it does is the
  telemetry logging, and then the clock advances by the step, a float addition (at once
  when the run is not visualized; after the plotting part, when that does not raise,
  otherwise).
\<close>

theorem poll_only_when_due:
  "trace (left_by (loop_body p step visualize it s)) =
     trace s @ iteration_events p step visualize it s \<and>
   ((\<exists>a. Env_call (Act a) \<in> set (iteration_events p step visualize it s)) \<longrightarrow> due p s) \<and>
   (due p s \<longrightarrow> Env_call (Act (offered p s)) \<in> set (iteration_events p step visualize it s)) \<and>
   (\<not> due p s \<longrightarrow>
      (\<forall>e \<in> set (iteration_events p step visualize it s). \<not> polls e) \<and>
      agent (left_by (loop_body p step visualize it s)) = agent s \<and>
      env (left_by (loop_body p step visualize it s)) = propagated p s \<and>
      take (4 + debris p (propagated p s)) (iteration_events p step visualize it s) =
        [Env_call (Propagate_forward (curr_time s) (update_r_p_step s)),
         Env_call Get_next_action] @ telemetry_at p it (curr_time s) (propagated p s) \<and>
      (\<not> visualize \<longrightarrow>
         loop_body p step visualize it s =
           Inr (s\<lparr>env := propagated p s,
                  trace := trace s @
                    [Env_call (Propagate_forward (curr_time s) (update_r_p_step s)),
                     Env_call Get_next_action] @
                    telemetry_at p it (curr_time s) (propagated p s),
                  curr_time := float_add (curr_time s) step\<rparr>)) \<and>
      (visualize \<and> can_plot s \<longrightarrow>
         (\<exists>s'. loop_body p step visualize it s = Inr s' \<and>
            curr_time s' = float_add (curr_time s) step)))"
proof -
  from iteration_events_split [of p it s step visualize] obtain ds vs where
    sp: "trace (decide_and_log p it s) = trace s @ ds"
      "iteration_events p step visualize it s = ds @ vs"
      "trace (left_by (loop_body p step visualize it s)) = trace s @ ds @ vs"
      "\<forall>e \<in> set vs. \<not> polls e" "\<not> visualize \<longrightarrow> vs = []"
    by blast
  from loop_body_left [of p step visualize it s] have
    fr: "agent (left_by (loop_body p step visualize it s)) = agent (decide_and_log p it s)"
      "env (left_by (loop_body p step visualize it s)) = env (decide_and_log p it s)"
    by blast+
  have one: "trace (left_by (loop_body p step visualize it s)) =
     trace s @ iteration_events p step visualize it s"
    using sp by simp
  have nd: "ds = [Env_call (Propagate_forward (curr_time s) (update_r_p_step s)),
         Env_call Get_next_action] @ telemetry_at p it (curr_time s) (propagated p s)"
    if "\<not> due p s"
    using sp(1) decide_and_log_not_due [OF that, of it] by simp
  have nopoll: "\<forall>e \<in> set ds. \<not> polls e" if "\<not> due p s"
    using nd [OF that] polls_telemetry [of _ p it "curr_time s" "propagated p s"]
    by (auto simp: polls_def)
  have two: "due p s" if "\<exists>a. Env_call (Act a) \<in> set (iteration_events p step visualize it s)"
  proof (rule ccontr)
    assume n: "\<not> due p s"
    from that obtain a where "Env_call (Act a) \<in> set (ds @ vs)" using sp(2) by auto
    with nopoll [OF n] sp(4) have "\<not> polls (Env_call (Act a))" by auto
    then show False by (simp add: polls_def)
  qed
  have three: "Env_call (Act (offered p s)) \<in> set (iteration_events p step visualize it s)"
    if "due p s"
    using sp(1,2) decide_and_log_due [OF that, of it] by auto
  have four: "(\<forall>e \<in> set (iteration_events p step visualize it s). \<not> polls e) \<and>
      agent (left_by (loop_body p step visualize it s)) = agent s \<and>
      env (left_by (loop_body p step visualize it s)) = propagated p s \<and>
      take (4 + debris p (propagated p s)) (iteration_events p step visualize it s) =
        [Env_call (Propagate_forward (curr_time s) (update_r_p_step s)),
         Env_call Get_next_action] @ telemetry_at p it (curr_time s) (propagated p s) \<and>
      (\<not> visualize \<longrightarrow>
         loop_body p step visualize it s =
           Inr (s\<lparr>env := propagated p s,
                  trace := trace s @
                    [Env_call (Propagate_forward (curr_time s) (update_r_p_step s)),
                     Env_call Get_next_action] @
                    telemetry_at p it (curr_time s) (propagated p s),
                  curr_time := float_add (curr_time s) step\<rparr>)) \<and>
      (visualize \<and> can_plot s \<longrightarrow>
         (\<exists>s'. loop_body p step visualize it s = Inr s' \<and>
            curr_time s' = float_add (curr_time s) step))"
    if n: "\<not> due p s"
  proof -
    have a: "\<forall>e \<in> set (iteration_events p step visualize it s). \<not> polls e"
      using nopoll [OF n] sp(2,4) by auto
    have b: "agent (left_by (loop_body p step visualize it s)) = agent s"
      "env (left_by (loop_body p step visualize it s)) = propagated p s"
      using fr decide_and_log_not_due [OF n, of it] by simp_all
    have len: "length ds = 4 + debris p (propagated p s)"
      using nd [OF n] by (simp add: telemetry_at_def)
    have c: "take (4 + debris p (propagated p s)) (iteration_events p step visualize it s) =
        [Env_call (Propagate_forward (curr_time s) (update_r_p_step s)),
         Env_call Get_next_action] @ telemetry_at p it (curr_time s) (propagated p s)"
    proof -
      have "take (length ds) (ds @ vs) = ds" by simp
      then have "take (4 + debris p (propagated p s)) (iteration_events p step visualize it s) = ds"
        by (simp only: len sp(2))
      with nd [OF n] show ?thesis by simp
    qed
    have d: "loop_body p step visualize it s =
           Inr (s\<lparr>env := propagated p s,
                  trace := trace s @
                    [Env_call (Propagate_forward (curr_time s) (update_r_p_step s)),
                     Env_call Get_next_action] @
                    telemetry_at p it (curr_time s) (propagated p s),
                  curr_time := float_add (curr_time s) step\<rparr>)"
      if "\<not> visualize"
      using that decide_and_log_not_due [OF n, of it]
      by (simp add: loop_body_def Let_def)
    have e: "\<exists>s'. loop_body p step visualize it s = Inr s' \<and> curr_time s' = float_add (curr_time s) step"
      if "visualize \<and> can_plot s"
    proof -
      from that have "\<not> visualize \<or> can_plot s" by simp
      from loop_body_ok [OF this, of p step it] show ?thesis by blast
    qed
    from a b c d e show ?thesis by blast
  qed
  from one two three four show ?thesis by blast
qed

theorem poll_only_when_due_witness:
  "\<not> due toy_ports (toy_sim 0 1 5 None None) \<and>
   loop_body toy_ports 1 False 0 (toy_sim 0 1 5 None None) =
     Inr ((toy_sim 0 1 5 None None)
       \<lparr>trace := [Env_call (Propagate_forward 0 None), Env_call Get_next_action,
                  Log DEBUG (Iteration 0 0 0), Log INFO (Position_protected 0),
                  Log INFO (Position_debris 0 0)],
        curr_time := 1\<rparr>) \<and>
   due toy_ports (toy_sim 0 1 0 None None) \<and>
   Env_call (Act (noop 0)) \<in> set (iteration_events toy_ports 1 False 0 (toy_sim 0 1 0 None None))"
proof -
  let ?s = "toy_sim 0 1 5 None None"
  let ?t = "toy_sim 0 1 0 None None"
  have n: "\<not> due toy_ports ?s"
    by (simp add: due_def propagated_def toy_ports_def toy_sim_def toy_def)
  have d: "due toy_ports ?t"
    by (simp add: due_def propagated_def toy_ports_def toy_sim_def toy_def)
  have o: "offered toy_ports ?t = noop 0"
    by (simp add: offered_def propagated_def toy_ports_def toy_sim_def toy_def act_of_def
        get_action_def state_at_def example_table_def example_row_def noop_def Let_def)
  have pr: "propagated toy_ports ?s = env ?s"
    by (simp add: propagated_def toy_ports_def toy_sim_def toy_def)
  have tl: "telemetry_at toy_ports 0 (curr_time ?s) (env ?s) =
      [Log DEBUG (Iteration 0 0 0), Log INFO (Position_protected 0),
       Log INFO (Position_debris 0 0)]"
    by (simp add: telemetry_at_def toy_ports_def toy_sim_def)
  from n poll_only_when_due [of toy_ports 1 False 0 ?s]
  have "loop_body toy_ports 1 False 0 ?s =
      Inr (?s\<lparr>env := propagated toy_ports ?s,
              trace := trace ?s @
                [Env_call (Propagate_forward (curr_time ?s) (update_r_p_step ?s)),
                 Env_call Get_next_action] @
                telemetry_at toy_ports 0 (curr_time ?s) (propagated toy_ports ?s),
              curr_time := float_add (curr_time ?s) 1\<rparr>)"
    by blast
  then have a: "loop_body toy_ports 1 False 0 ?s =
     Inr (?s\<lparr>trace := [Env_call (Propagate_forward 0 None), Env_call Get_next_action,
                  Log DEBUG (Iteration 0 0 0), Log INFO (Position_protected 0),
                  Log INFO (Position_debris 0 0)],
        curr_time := 1\<rparr>)"
    by (simp add: pr tl) (simp add: toy_sim_def float_add_small)
  from d poll_only_when_due [of toy_ports 1 False 0 ?t]
  have "Env_call (Act (offered toy_ports ?t)) \<in> set (iteration_events toy_ports 1 False 0 ?t)"
    by blast
  with o have b: "Env_call (Act (noop 0)) \<in> set (iteration_events toy_ports 1 False 0 ?t)"
    by simp
  from n a d b show ?thesis by blast
qed

subsection \<open>A rejected action\<close>

lemma decide_and_log_same_clock:
  "same_clock s t \<Longrightarrow> same_clock (decide_and_log p it s) (decide_and_log q it t)"
  by (simp add: same_clock_def series_lengths_def decide_and_log_frame)

lemma plot_step_same_clock:
  "same_clock s t \<Longrightarrow> same_step (plot_step p it s) (plot_step q it t)"
  by (auto simp: same_clock_def same_step_def series_lengths_def plot_step_def Let_def emit_def
      split: option.splits)

lemma loop_body_same_clock:
  assumes "same_clock s t"
  shows "same_step (loop_body p step visualize it s) (loop_body q step visualize it t)"
proof (cases visualize)
  case False
  with decide_and_log_same_clock [OF assms, of p it q] show ?thesis
    by (simp add: loop_body_def Let_def same_step_def same_clock_def series_lengths_def)
next
  case True
  from plot_step_same_clock [OF decide_and_log_same_clock [OF assms, of p it q], of p it q]
  show ?thesis using True
    by (auto simp: loop_body_def Let_def same_step_def same_clock_def series_lengths_def
        split: sum.splits)
qed

lemma map_option_None_iff:
  "map_option f x = map_option g y \<Longrightarrow> (x = None) = (y = None)"
  by (cases x; cases y) simp_all

lemma same_clock_series_None:
  assumes "same_clock s t"
  shows "(time_arr s = None) = (time_arr t = None)"
    and "(prob_arr s = None) = (prob_arr t = None)"
    and "(fuel_cons_arr s = None) = (fuel_cons_arr t = None)"
    and "(reward_arr s = None) = (reward_arr t = None)"
proof -
  from assms have e: "map_option length (time_arr s) = map_option length (time_arr t)"
    "map_option length (prob_arr s) = map_option length (prob_arr t)"
    "map_option length (fuel_cons_arr s) = map_option length (fuel_cons_arr t)"
    "map_option length (reward_arr s) = map_option length (reward_arr t)"
    by (simp_all add: same_clock_def series_lengths_def)
  show "(time_arr s = None) = (time_arr t = None)" using e(1) by (rule map_option_None_iff)
  show "(prob_arr s = None) = (prob_arr t = None)" using e(2) by (rule map_option_None_iff)
  show "(fuel_cons_arr s = None) = (fuel_cons_arr t = None)"
    using e(3) by (rule map_option_None_iff)
  show "(reward_arr s = None) = (reward_arr t = None)" using e(4) by (rule map_option_None_iff)
qed

lemma can_plot_same_clock:
  assumes "same_clock s t"
  shows "can_plot s = can_plot t"
proof -
  from assms have "vis s = vis t" "update_r_p_step s = update_r_p_step t"
    by (simp_all add: same_clock_def)
  with same_clock_series_None [OF assms] show ?thesis by (simp add: can_plot_def)
qed

text \<open>
  Two runs of the loop from objects that agree on the clock and the series make the same
  number of iterations and end in objects that agree, whatever the two environments and
  agents do.
\<close>

lemma run_loop_same_clock:
  "same_clock s t \<Longrightarrow> \<not> visualize \<or> can_plot s \<Longrightarrow>
   \<forall>k<n. clock (curr_time s) step k \<le> end_time s \<Longrightarrow>
   end_time s < clock (curr_time s) step n \<Longrightarrow>
   \<exists>s' t'. run_loop p step visualize it s = Some (Inr (s', it + n)) \<and>
     run_loop q step visualize it t = Some (Inr (t', it + n)) \<and> same_clock s' t'"
proof (induction n arbitrary: s t it)
  case 0
  then have out: "end_time s < curr_time s" by simp
  with 0(1) have out': "end_time t < curr_time t" by (simp add: same_clock_def)
  from out out' 0(1) show ?case by (simp add: run_loop_exit)
next
  case (Suc m)
  from Suc.prems(3) have "clock (curr_time s) step 0 \<le> end_time s" by blast
  then have inside: "curr_time s \<le> end_time s" by simp
  with Suc.prems(1) have inside': "curr_time t \<le> end_time t" by (simp add: same_clock_def)
  from Suc.prems(1,2) have nt: "\<not> visualize \<or> can_plot t" by (simp add: can_plot_same_clock)
  from loop_body_ok [OF Suc.prems(2), of p step it] obtain s1 where
    s1: "loop_body p step visualize it s = Inr s1" "curr_time s1 = float_add (curr_time s) step"
      "end_time s1 = end_time s" "\<not> visualize \<or> can_plot s1"
    by blast
  from loop_body_ok [OF nt, of q step it] obtain t1 where
    t1: "loop_body q step visualize it t = Inr t1"
    by blast
  from loop_body_same_clock [OF Suc.prems(1), of p step visualize it q] s1(1) t1(1)
  have sc: "same_clock s1 t1" by (simp add: same_step_def)
  have a: "\<forall>k<m. clock (curr_time s1) step k \<le> end_time s1"
  proof (intro allI impI)
    fix k
    assume "k < m"
    then have "Suc k < Suc m" by simp
    with Suc.prems(3) have "clock (curr_time s) step (Suc k) \<le> end_time s" by blast
    then show "clock (curr_time s1) step k \<le> end_time s1" by (simp add: s1)
  qed
  have b: "end_time s1 < clock (curr_time s1) step m" using Suc.prems(4) by (simp add: s1)
  from Suc.IH [OF sc s1(4) a b, of "it + 1"] obtain s' t' where
    r: "run_loop p step visualize (it + 1) s1 = Some (Inr (s', it + 1 + m))"
      "run_loop q step visualize (it + 1) t1 = Some (Inr (t', it + 1 + m))" "same_clock s' t'"
    by blast
  have c: "run_loop p step visualize it s = run_loop p step visualize (it + 1) s1"
    using inside s1(1) by (subst run_loop.simps) simp
  have d: "run_loop q step visualize it t = run_loop q step visualize (it + 1) t1"
    using inside' t1(1) by (subst run_loop.simps) simp
  from c d r show ?case by simp
qed

lemma before_loop_same_clock:
  "same_clock (before_loop p step visualize s) (before_loop q step visualize s)"
  by (simp add: before_loop_def same_clock_def series_lengths_def Let_def emit_def)

lemma after_loop_series: "series_lengths (snd (after_loop p s)) = series_lengths s"
  by (simp add: after_loop_eq series_lengths_def)

lemma run_same_series:
  assumes "step_ok visualize s"
  shows "series_of (run q step visualize s) = series_of (run p step visualize s) \<and>
     iterations_of (run q step visualize s) = iterations_of (run p step visualize s) \<and>
     (run q step visualize s = None) = (run p step visualize s = None)"
proof (cases "\<exists>n. end_time s < clock (curr_time s) step n")
  case True
  then obtain n0 where "end_time s < clock (curr_time s) step n0" by blast
  from first_past_end [OF this] obtain n where
    n: "end_time s < clock (curr_time s) step n" "\<forall>k<n. clock (curr_time s) step k \<le> end_time s"
    by blast
  from run_returns [OF assms n(2) n(1), of p] obtain s3 where
    s3: "run p step visualize s = Some (Inr (after_loop p s3))"
      "run_loop p step visualize 0 (before_loop p step visualize s) = Some (Inr (s3, n))"
      "iterations_in (trace s3) = iterations_in (trace s) + n"
    by blast
  from run_returns [OF assms n(2) n(1), of q] obtain t3 where
    t3: "run q step visualize s = Some (Inr (after_loop q t3))"
      "run_loop q step visualize 0 (before_loop q step visualize s) = Some (Inr (t3, n))"
      "iterations_in (trace t3) = iterations_in (trace s) + n"
    by blast
  let ?bp = "before_loop p step visualize s"
  have nr: "\<not> visualize \<or> can_plot ?bp" using assms by (rule before_loop_can_plot)
  have a: "\<forall>k<n. clock (curr_time ?bp) step k \<le> end_time ?bp"
    using n(2) by (simp add: before_loop_frame)
  have b: "end_time ?bp < clock (curr_time ?bp) step n"
    using n(1) by (simp add: before_loop_frame)
  from run_loop_same_clock
    [OF before_loop_same_clock [of p step visualize s q] nr a b, where p = p and q = q and it = 0]
  have "same_clock s3 t3" using s3(2) t3(2) by auto
  then have "series_lengths s3 = series_lengths t3" by (simp add: same_clock_def)
  with s3 t3 show ?thesis
    by (simp add: series_of_def iterations_of_def after_loop_series after_loop_iterations)
next
  case False
  then have "\<forall>k. clock (curr_time s) step k \<le> end_time s" by (simp add: not_less)
  then have "run p step visualize s = None" "run q step visualize s = None"
    using assms by (simp_all add: run_diverges)
  then show ?thesis by simp
qed

lemma run_loop_never_raises:
  assumes "run_loop p step visualize it s = Some y"
  shows "\<not> visualize \<or> can_plot s \<longrightarrow> (\<forall>ex. y \<noteq> Inl ex)"
  using assms
proof (induction p step visualize it s y
    rule: run_loop.raw_induct [rotated 1, consumes 1, case_names step])
  case (step f p step visualize it s y)
  show ?case
  proof
    assume nr: "\<not> visualize \<or> can_plot s"
    show "\<forall>ex. y \<noteq> Inl ex"
    proof (cases "curr_time s \<le> end_time s")
      case True
      from loop_body_ok [OF nr, of p step it] obtain s1 where
        s1: "loop_body p step visualize it s = Inr s1" "\<not> visualize \<or> can_plot s1" by blast
      with True step(2) have "f p step visualize (it + 1) s1 = Some y" by simp
      from step(1) [OF this] s1(2) show ?thesis by simp
    next
      case False
      with step(2) show ?thesis by auto
    qed
  qed
qed

lemma run_never_raises:
  assumes "step_ok visualize s"
  shows "run p step visualize s \<noteq> Some (Inl ex)"
proof
  assume "run p step visualize s = Some (Inl ex)"
  then have "run_loop p step visualize 0 (before_loop p step visualize s) = Some (Inl ex)"
    by (simp add: run_def split: option.splits sum.splits prod.splits)
  from run_loop_never_raises [OF this] before_loop_can_plot [OF assms, of p step]
  show False by simp
qed

subsection \<open>The iterations of a run\<close>

lemma loop_state_run_loop:
  "loop_state p step visualize it k s = Some t \<Longrightarrow>
   run_loop p step visualize it s = run_loop p step visualize (it + k) t \<and>
   curr_time t \<le> end_time t"
proof (induction k arbitrary: it s)
  case 0
  then show ?case by (simp split: if_splits)
next
  case (Suc k)
  from Suc.prems obtain s1 where inside: "curr_time s \<le> end_time s"
    and b: "loop_body p step visualize it s = Inr s1"
    and r: "loop_state p step visualize (it + 1) k s1 = Some t"
    by (auto split: if_splits sum.splits)
  from Suc.IH [OF r] have
    "run_loop p step visualize (it + 1) s1 = run_loop p step visualize (it + 1 + k) t"
    "curr_time t \<le> end_time t"
    by simp_all
  moreover have "run_loop p step visualize it s = run_loop p step visualize (it + 1) s1"
    using inside b by (subst run_loop.simps) simp
  ultimately show ?case by simp
qed

lemma loop_state_can_plot:
  "loop_state p step visualize it k s = Some t \<Longrightarrow> \<not> visualize \<or> can_plot s \<Longrightarrow>
   \<not> visualize \<or> can_plot t"
proof (induction k arbitrary: it s)
  case 0
  then show ?case by (simp split: if_splits)
next
  case (Suc k)
  from Suc.prems(1) obtain s1 where
    b: "loop_body p step visualize it s = Inr s1"
    and r: "loop_state p step visualize (it + 1) k s1 = Some t"
    by (auto split: if_splits sum.splits)
  from loop_body_ok [OF Suc.prems(2), of p step it] b have "\<not> visualize \<or> can_plot s1" by auto
  from Suc.IH [OF r this] show ?case .
qed

lemma loop_state_next:
  "loop_state p step visualize it k s = Some t \<Longrightarrow>
   loop_body p step visualize (it + k) t = Inr t' \<Longrightarrow> curr_time t' \<le> end_time t' \<Longrightarrow>
   loop_state p step visualize it (Suc k) s = Some t'"
proof (induction k arbitrary: it s)
  case 0
  then show ?case by (simp split: if_splits)
next
  case (Suc k)
  from Suc.prems(1) obtain s1 where inside: "curr_time s \<le> end_time s"
    and b: "loop_body p step visualize it s = Inr s1"
    and r: "loop_state p step visualize (it + 1) k s1 = Some t"
    by (auto split: if_splits sum.splits)
  from Suc.prems(2) have "loop_body p step visualize (it + 1 + k) t = Inr t'" by simp
  from Suc.IH [OF r this Suc.prems(3)]
  have "loop_state p step visualize (it + 1) (Suc k) s1 = Some t'" .
  with inside b show ?case by simp
qed

lemma loop_body_trace:
  "trace (left_by (loop_body p step visualize it s)) =
     trace s @ iteration_events p step visualize it s"
  using iteration_events_split [of p it s step visualize] by auto

lemma run_loop_trace:
  assumes "run_loop p step visualize it s = Some y"
  shows "\<exists>es. trace (case y of Inl ex \<Rightarrow> snd ex | Inr z \<Rightarrow> fst z) = trace s @ es"
  using assms
proof (induction p step visualize it s y
    rule: run_loop.raw_induct [rotated 1, consumes 1, case_names step])
  case (step f p step visualize it s y)
  show ?case
  proof (cases "curr_time s \<le> end_time s")
    case True
    show ?thesis
    proof (cases "loop_body p step visualize it s")
      case (Inl ex)
      with True step(2) have "y = Inl ex" by simp
      moreover have "trace (snd ex) = trace s @ iteration_events p step visualize it s"
        using loop_body_trace [of p step visualize it s] Inl by (simp add: left_by_def)
      ultimately show ?thesis by simp
    next
      case (Inr s1)
      with True step(2) have "f p step visualize (it + 1) s1 = Some y" by simp
      from step(1) [OF this] obtain es where
        "trace (case y of Inl ex \<Rightarrow> snd ex | Inr z \<Rightarrow> fst z) = trace s1 @ es" by blast
      moreover have "trace s1 = trace s @ iteration_events p step visualize it s"
        using loop_body_trace [of p step visualize it s] Inr by (simp add: left_by_def)
      ultimately show ?thesis by simp
    qed
  next
    case False
    with step(2) show ?thesis by auto
  qed
qed

lemma run_loop_trace_first:
  assumes "run_loop p step visualize it s = Some y" and "curr_time s \<le> end_time s"
  shows "\<exists>es. trace (case y of Inl ex \<Rightarrow> snd ex | Inr z \<Rightarrow> fst z) =
     trace s @ iteration_events p step visualize it s @ es"
proof (cases "loop_body p step visualize it s")
  case (Inl ex)
  have "run_loop p step visualize it s = Some (Inl ex)"
    using assms(2) Inl by (subst run_loop.simps) simp
  with assms(1) have "y = Inl ex" by simp
  moreover have "trace (snd ex) = trace s @ iteration_events p step visualize it s"
    using loop_body_trace [of p step visualize it s] Inl by (simp add: left_by_def)
  ultimately show ?thesis by simp
next
  case (Inr s1)
  have "run_loop p step visualize it s = run_loop p step visualize (it + 1) s1"
    using assms(2) Inr by (subst run_loop.simps) simp
  with assms(1) have "run_loop p step visualize (it + 1) s1 = Some y" by simp
  from run_loop_trace [OF this] obtain es where
    "trace (case y of Inl ex \<Rightarrow> snd ex | Inr z \<Rightarrow> fst z) = trace s1 @ es" by blast
  moreover have "trace s1 = trace s @ iteration_events p step visualize it s"
    using loop_body_trace [of p step visualize it s] Inr by (simp add: left_by_def)
  ultimately show ?thesis by simp
qed

lemma run_trace_of_iteration:
  assumes "entered p step visualize s k = Some t" and "run p step visualize s = Some res"
  shows "\<exists>es. trace (object_of res) = trace t @ iteration_events p step visualize k t @ es"
proof -
  let ?b = "before_loop p step visualize s"
  from assms(1) have ls: "loop_state p step visualize 0 k ?b = Some t" by (simp add: entered_def)
  from loop_state_run_loop [OF ls] have
    eq: "run_loop p step visualize 0 ?b = run_loop p step visualize k t"
    and inside: "curr_time t \<le> end_time t"
    by simp_all
  from assms(2) obtain y where y: "run_loop p step visualize 0 ?b = Some y"
    and res: "res = (case y of Inl ex \<Rightarrow> Inl ex | Inr z \<Rightarrow> Inr (after_loop p (fst z)))"
    by (auto simp: run_def split: option.splits sum.splits prod.splits)
  from y eq have "run_loop p step visualize k t = Some y" by simp
  from run_loop_trace_first [OF this inside] obtain es where
    es: "trace (case y of Inl ex \<Rightarrow> snd ex | Inr z \<Rightarrow> fst z) =
      trace t @ iteration_events p step visualize k t @ es"
    by blast
  show ?thesis
  proof (cases y)
    case (Inl ex)
    with es res show ?thesis by (simp add: object_of_def)
  next
    case (Inr z)
    with es res show ?thesis by (simp add: object_of_def after_loop_eq)
  qed
qed

text \<open>
  C4. Take the iteration \<open>k\<close> of a call of \<open>run\<close>, entered on the object \<open>t\<close>, in which
  the agent is polled and \<open>act\<close> answers with a failure description (an answer that
  \<open>if err\<close> takes as true: a non-empty string). The iteration writes a warning with the
  three deltas of the rejected action and the reason, and its telemetry records are those
  of any iteration that polls: the iteration record, the position of the protected object
  and one position for each debris object of the environment as \<open>act\<close> left it. Whatever
  way the call of \<open>run\<close> ends, the object it leaves has these events in its trace, after
  those of the earlier iterations. Unless the plotting part can raise, the iteration
  returns with the clock advanced by the step, the run goes on with the loop from
  iteration \<open>k + 1\<close>, which is entered when the clock has not passed the end time, and
  \<open>run\<close> raises nothing. What \<open>act\<close> does and answers has no effect on the clock and on
  the lengths of the series: with any other \<open>act\<close>, in particular one that accepts every
  action, the iteration raises or returns alike, and \<open>run\<close> returns in the same cases,
  after the same number of iterations and with series of the same lengths.
\<close>

theorem rejected_action_is_logged_and_skipped:
  "(entered p step visualize s k = Some t \<and> due p t \<and>
    fst (act p (offered p t) (propagated p t)) = Some m \<and> m \<noteq> [] \<longrightarrow>
      Log WARNING (Bad_action (dVx (offered p t)) (dVy (offered p t)) (dVz (offered p t)) m)
        \<in> set (iteration_events p step visualize k t) \<and>
      filter is_telemetry (iteration_events p step visualize k t) =
        telemetry_at p k (curr_time t) (snd (act p (offered p t) (propagated p t))) \<and>
      (\<forall>res. run p step visualize s = Some res \<longrightarrow>
         (\<exists>es. trace (object_of res) =
            trace t @ iteration_events p step visualize k t @ es)) \<and>
      (step_ok visualize s \<longrightarrow>
         (\<exists>t'. loop_body p step visualize k t = Inr t' \<and>
            curr_time t' = float_add (curr_time t) step \<and> end_time t' = end_time t \<and>
            run_loop p step visualize 0 (before_loop p step visualize s) =
              run_loop p step visualize (k + 1) t' \<and>
            (curr_time t' \<le> end_time t' \<longrightarrow>
               entered p step visualize s (k + 1) = Some t')))) \<and>
   (due p t \<longrightarrow>
      filter is_telemetry (iteration_events p step visualize k t) =
        telemetry_at p k (curr_time t) (snd (act p (offered p t) (propagated p t)))) \<and>
   same_step (loop_body p step visualize k t) (loop_body (p\<lparr>act := f\<rparr>) step visualize k t) \<and>
   (step_ok visualize s \<longrightarrow>
      (\<forall>ex. run p step visualize s \<noteq> Some (Inl ex)) \<and>
      iterations_of (run (p\<lparr>act := f\<rparr>) step visualize s) =
        iterations_of (run p step visualize s) \<and>
      series_of (run (p\<lparr>act := f\<rparr>) step visualize s) = series_of (run p step visualize s) \<and>
      (run (p\<lparr>act := f\<rparr>) step visualize s = None) = (run p step visualize s = None))"
proof -
  have tel: "filter is_telemetry (iteration_events p step visualize k t) =
        telemetry_at p k (curr_time t) (snd (act p (offered p t) (propagated p t)))"
    if d: "due p t"
  proof -
    from iteration_events_split [of p k t step visualize] obtain ds vs where
      sp: "trace (decide_and_log p k t) = trace t @ ds"
        "iteration_events p step visualize k t = ds @ vs"
        "filter is_telemetry vs = []"
      by blast
    from filter_telemetry_due [OF d, of k] sp(1)
    have "filter is_telemetry ds =
        telemetry_at p k (curr_time t) (snd (act p (offered p t) (propagated p t)))"
      by auto
    with sp(2,3) show ?thesis by simp
  qed
  have A: "entered p step visualize s k = Some t \<and> due p t \<and>
    fst (act p (offered p t) (propagated p t)) = Some m \<and> m \<noteq> [] \<longrightarrow>
      Log WARNING (Bad_action (dVx (offered p t)) (dVy (offered p t)) (dVz (offered p t)) m)
        \<in> set (iteration_events p step visualize k t) \<and>
      filter is_telemetry (iteration_events p step visualize k t) =
        telemetry_at p k (curr_time t) (snd (act p (offered p t) (propagated p t))) \<and>
      (\<forall>res. run p step visualize s = Some res \<longrightarrow>
         (\<exists>es. trace (object_of res) =
            trace t @ iteration_events p step visualize k t @ es)) \<and>
      (step_ok visualize s \<longrightarrow>
         (\<exists>t'. loop_body p step visualize k t = Inr t' \<and>
            curr_time t' = float_add (curr_time t) step \<and> end_time t' = end_time t \<and>
            run_loop p step visualize 0 (before_loop p step visualize s) =
              run_loop p step visualize (k + 1) t' \<and>
            (curr_time t' \<le> end_time t' \<longrightarrow>
               entered p step visualize s (k + 1) = Some t')))"
  proof (intro impI)
    assume h: "entered p step visualize s k = Some t \<and> due p t \<and>
      fst (act p (offered p t) (propagated p t)) = Some m \<and> m \<noteq> []"
    then have en: "entered p step visualize s k = Some t" and d: "due p t"
      and rj: "fst (act p (offered p t) (propagated p t)) = Some m" "m \<noteq> []"
      by simp_all
    let ?b = "before_loop p step visualize s"
    from en have ls: "loop_state p step visualize 0 k ?b = Some t" by (simp add: entered_def)
    from iteration_events_split [of p k t step visualize] obtain ds vs where
      sp: "trace (decide_and_log p k t) = trace t @ ds"
        "iteration_events p step visualize k t = ds @ vs"
      by blast
    from rj sp decide_and_log_due [OF d, of k]
    have w: "Log WARNING
        (Bad_action (dVx (offered p t)) (dVy (offered p t)) (dVz (offered p t)) m)
        \<in> set (iteration_events p step visualize k t)"
      by auto
    have r: "\<forall>res. run p step visualize s = Some res \<longrightarrow>
         (\<exists>es. trace (object_of res) =
            trace t @ iteration_events p step visualize k t @ es)"
      using run_trace_of_iteration [OF en] by blast
    have g: "\<exists>t'. loop_body p step visualize k t = Inr t' \<and>
            curr_time t' = float_add (curr_time t) step \<and> end_time t' = end_time t \<and>
            run_loop p step visualize 0 ?b = run_loop p step visualize (k + 1) t' \<and>
            (curr_time t' \<le> end_time t' \<longrightarrow>
               entered p step visualize s (k + 1) = Some t')"
      if ok: "step_ok visualize s"
    proof -
      have "\<not> visualize \<or> can_plot ?b" using ok by (rule before_loop_can_plot)
      from loop_state_can_plot [OF ls this] have nr: "\<not> visualize \<or> can_plot t" .
      from loop_body_ok [OF nr, of p step k] obtain t' where
        t': "loop_body p step visualize k t = Inr t'"
          "curr_time t' = float_add (curr_time t) step" "end_time t' = end_time t"
        by blast
      from loop_state_run_loop [OF ls] have
        eq: "run_loop p step visualize 0 ?b = run_loop p step visualize k t"
        and inside: "curr_time t \<le> end_time t"
        by simp_all
      have "run_loop p step visualize k t = run_loop p step visualize (k + 1) t'"
        using inside t'(1) by (subst run_loop.simps) simp
      with eq have e1: "run_loop p step visualize 0 ?b = run_loop p step visualize (k + 1) t'"
        by simp
      have e2: "entered p step visualize s (k + 1) = Some t'" if "curr_time t' \<le> end_time t'"
        using loop_state_next [OF ls _ that] t'(1) by (simp add: entered_def)
      from t' e1 e2 show ?thesis by blast
    qed
    from w tel [OF d] r g
    show "Log WARNING (Bad_action (dVx (offered p t)) (dVy (offered p t)) (dVz (offered p t)) m)
        \<in> set (iteration_events p step visualize k t) \<and>
      filter is_telemetry (iteration_events p step visualize k t) =
        telemetry_at p k (curr_time t) (snd (act p (offered p t) (propagated p t))) \<and>
      (\<forall>res. run p step visualize s = Some res \<longrightarrow>
         (\<exists>es. trace (object_of res) =
            trace t @ iteration_events p step visualize k t @ es)) \<and>
      (step_ok visualize s \<longrightarrow>
         (\<exists>t'. loop_body p step visualize k t = Inr t' \<and>
            curr_time t' = float_add (curr_time t) step \<and> end_time t' = end_time t \<and>
            run_loop p step visualize 0 (before_loop p step visualize s) =
              run_loop p step visualize (k + 1) t' \<and>
            (curr_time t' \<le> end_time t' \<longrightarrow>
               entered p step visualize s (k + 1) = Some t')))"
      by blast
  qed
  have B: "due p t \<longrightarrow>
      filter is_telemetry (iteration_events p step visualize k t) =
        telemetry_at p k (curr_time t) (snd (act p (offered p t) (propagated p t)))"
    using tel by blast
  have "same_clock t t" by (simp add: same_clock_def)
  then have C: "same_step (loop_body p step visualize k t)
      (loop_body (p\<lparr>act := f\<rparr>) step visualize k t)"
    by (rule loop_body_same_clock)
  have D: "step_ok visualize s \<longrightarrow>
      (\<forall>ex. run p step visualize s \<noteq> Some (Inl ex)) \<and>
      iterations_of (run (p\<lparr>act := f\<rparr>) step visualize s) =
        iterations_of (run p step visualize s) \<and>
      series_of (run (p\<lparr>act := f\<rparr>) step visualize s) = series_of (run p step visualize s) \<and>
      (run (p\<lparr>act := f\<rparr>) step visualize s = None) = (run p step visualize s = None)"
  proof (intro impI)
    assume ok: "step_ok visualize s"
    from run_same_series [OF ok, of "p\<lparr>act := f\<rparr>" step p] run_never_raises [OF ok, of p step]
    show "(\<forall>ex. run p step visualize s \<noteq> Some (Inl ex)) \<and>
      iterations_of (run (p\<lparr>act := f\<rparr>) step visualize s) =
        iterations_of (run p step visualize s) \<and>
      series_of (run (p\<lparr>act := f\<rparr>) step visualize s) = series_of (run p step visualize s) \<and>
      (run (p\<lparr>act := f\<rparr>) step visualize s = None) = (run p step visualize s = None)"
      by blast
  qed
  show ?thesis by (intro conjI) (fact A, fact B, fact C, fact D)
qed

theorem rejected_action_is_logged_and_skipped_witness:
  "entered toy_ports 1 False (toy_sim 6600 6601 6600 (Some ''fuel'') None) 0 =
     Some (toy_sim 6600 6601 6600 (Some ''fuel'') None) \<and>
   due toy_ports (toy_sim 6600 6601 6600 (Some ''fuel'') None) \<and>
   fst (act toy_ports (offered toy_ports (toy_sim 6600 6601 6600 (Some ''fuel'') None))
          (propagated toy_ports (toy_sim 6600 6601 6600 (Some ''fuel'') None))) = Some ''fuel'' \<and>
   step_ok False (toy_sim 6600 6601 6600 (Some ''fuel'') None) \<and>
   Log WARNING (Bad_action 1 0 0 ''fuel'')
     \<in> set (iteration_events toy_ports 1 False 0 (toy_sim 6600 6601 6600 (Some ''fuel'') None)) \<and>
   filter is_telemetry
       (iteration_events toy_ports 1 False 0 (toy_sim 6600 6601 6600 (Some ''fuel'') None)) =
     [Log DEBUG (Iteration 0 6600 0), Log INFO (Position_protected 6600),
      Log INFO (Position_debris 0 6600)] \<and>
   (\<exists>r sf. run toy_ports 1 False (toy_sim 6600 6601 6600 (Some ''fuel'') None)
              = Some (Inr (r, sf)) \<and>
      Log WARNING (Bad_action 1 0 0 ''fuel'') \<in> set (trace sf)) \<and>
   (\<exists>t'. entered toy_ports 1 False (toy_sim 6600 6601 6600 (Some ''fuel'') None) 1 = Some t' \<and>
      curr_time t' = 6601) \<and>
   iterations_of (run (toy_ports\<lparr>act := \<lambda>a e. (None, e)\<rparr>) 1 False
       (toy_sim 6600 6601 6600 (Some ''fuel'') None)) = Some 2 \<and>
   iterations_of (run toy_ports 1 False (toy_sim 6600 6601 6600 (Some ''fuel'') None)) = Some 2"
proof -
  let ?s = "toy_sim 6600 6601 6600 (Some ''fuel'') None"
  let ?f = "\<lambda>(a::action) (e::toy_env). (None::string option, e)"
  let ?w = "Log WARNING (Bad_action 1 0 0 ''fuel'')"
  have en: "entered toy_ports 1 False ?s 0 = Some ?s"
    by (simp add: entered_def before_loop_def toy_sim_def Let_def)
  have d: "due toy_ports ?s"
    by (simp add: due_def propagated_def toy_ports_def toy_sim_def toy_def)
  have o: "offered toy_ports ?s =
      \<lparr>dVx = 1, dVy = 0, dVz = 0, maneuver_epoch = 6600, time_to_req = 0\<rparr>"
    by (simp add: offered_def propagated_def toy_ports_def toy_sim_def toy_def act_of_def
        get_action_def state_at_def example_table_def example_row_def Let_def)
  have r: "fst (act toy_ports (offered toy_ports ?s) (propagated toy_ports ?s)) = Some ''fuel''"
    by (simp add: propagated_def toy_ports_def toy_sim_def toy_def)
  have ne: "''fuel'' \<noteq> []" by simp
  have ok: "step_ok False ?s" by (simp add: step_ok_def)
  have c: "curr_time ?s = 6600" and e: "end_time ?s = 6601"
    and t0: "iterations_in (trace ?s) = 0"
    by (simp_all add: toy_sim_def iterations_in_def)
  have tl: "telemetry_at toy_ports 0 (curr_time ?s)
        (snd (act toy_ports (offered toy_ports ?s) (propagated toy_ports ?s))) =
      [Log DEBUG (Iteration 0 6600 0), Log INFO (Position_protected 6600),
       Log INFO (Position_debris 0 6600)]"
    by (simp add: telemetry_at_def toy_ports_def toy_sim_def)
  note th = rejected_action_is_logged_and_skipped
    [where p = toy_ports and s = ?s and t = ?s and m = "''fuel''" and step = 1
       and visualize = False and k = 0 and f = ?f]
  from en d r ne th
  have "Log WARNING (Bad_action (dVx (offered toy_ports ?s)) (dVy (offered toy_ports ?s))
          (dVz (offered toy_ports ?s)) ''fuel'')
        \<in> set (iteration_events toy_ports 1 False 0 ?s)"
    by blast
  then have w: "?w \<in> set (iteration_events toy_ports 1 False 0 ?s)" by (simp add: o)
  from d th
  have "filter is_telemetry (iteration_events toy_ports 1 False 0 ?s) =
      telemetry_at toy_ports 0 (curr_time ?s)
        (snd (act toy_ports (offered toy_ports ?s) (propagated toy_ports ?s)))"
    by blast
  then have t: "filter is_telemetry (iteration_events toy_ports 1 False 0 ?s) =
      [Log DEBUG (Iteration 0 6600 0), Log INFO (Position_protected 6600),
       Log INFO (Position_debris 0 6600)]"
    by (simp only: tl)
  have w2: "\<forall>k<2. clock (curr_time ?s) 1 k \<le> end_time ?s"
    by (simp add: all_less_2 c e float_add_small)
  have o2: "end_time ?s < clock (curr_time ?s) 1 2"
    by (simp add: c e numeral_2_eq_2 float_add_small)
  from run_count [OF ok w2 o2, of toy_ports] obtain rw sf where
    rn: "run toy_ports 1 False ?s = Some (Inr (rw, sf))"
      "iterations_in (trace sf) = iterations_in (trace ?s) + 2"
    by blast
  from en d r ne th rn(1)
  have "\<exists>es. trace (object_of (Inr (rw, sf))) =
      trace ?s @ iteration_events toy_ports 1 False 0 ?s @ es"
    by blast
  then obtain es where "trace sf = trace ?s @ iteration_events toy_ports 1 False 0 ?s @ es"
    by (auto simp: object_of_def)
  with w have "?w \<in> set (trace sf)" by simp
  with rn(1) have g: "\<exists>r sf. run toy_ports 1 False ?s = Some (Inr (r, sf)) \<and> ?w \<in> set (trace sf)"
    by blast
  from en d r ne ok th obtain t' where
    t': "curr_time t' = float_add (curr_time ?s) 1" "end_time t' = end_time ?s"
      "curr_time t' \<le> end_time t' \<longrightarrow> entered toy_ports 1 False ?s (0 + 1) = Some t'"
    by blast
  from t'(1,2) have "curr_time t' = 6601" "curr_time t' \<le> end_time t'"
    by (simp_all add: c e float_add_small)
  with t'(3) have n: "\<exists>t'. entered toy_ports 1 False ?s 1 = Some t' \<and> curr_time t' = 6601"
    by auto
  from rn have i2: "iterations_of (run toy_ports 1 False ?s) = Some 2"
    by (simp add: iterations_of_def t0)
  from ok th
  have "iterations_of (run (toy_ports\<lparr>act := ?f\<rparr>) 1 False ?s) =
        iterations_of (run toy_ports 1 False ?s)"
    by blast
  with i2 have i1: "iterations_of (run (toy_ports\<lparr>act := ?f\<rparr>) 1 False ?s) = Some 2" by simp
  from en d r ok w t g n i1 i2 show ?thesis by blast
qed

end
